theory Spec2Isabelle
  imports Main "HOL-Library.Word"
begin

section \<open>Winnowed minimizers of MashMap (commonFunc.hpp)\<close>

text \<open>
  A shallow embedding of \<^verbatim>\<open>src/map/include/commonFunc.hpp\<close>: the helpers
  \<^verbatim>\<open>reverseComplement\<close>, \<^verbatim>\<open>makeUpperCase\<close>, \<^verbatim>\<open>getHash\<close>, the
  winnowing routine \<^verbatim>\<open>addMinimizers\<close> and the file size aggregator
  \<^verbatim>\<open>getReferenceSize\<close>.

  Buffers (\<^verbatim>\<open>char*\<close>) are lists of bytes; a pointer into a buffer is the buffer
  together with an offset. Positions and lengths (\<^verbatim>\<open>offset_t\<close>, \<^verbatim>\<open>int\<close>) are
  mathematical integers: with \<open>0 \<le> len\<close>, \<open>1 \<le> kmerSize\<close> and \<open>1 \<le> windowSize\<close> in the
  range of a machine \<^verbatim>\<open>int\<close>, none of the expressions \<open>len - kmerSize + 1\<close>,
  \<open>i - windowSize + 1\<close>, \<open>i - windowSize\<close>, \<open>len - i - kmerSize\<close> leaves that range.
\<close>

subsection \<open>Data model\<close>

text \<open>
  Modelled from the spec: the strand enumeration \<^verbatim>\<open>strnd\<close> comes with
  \<^verbatim>\<open>map_parameters.hpp\<close>, which is not among the sources; the spec gives a strand as
  one of Forward and Reverse, the code names them \<^verbatim>\<open>strnd::FWD\<close> and \<^verbatim>\<open>strnd::REV\<close>.
\<close>

datatype strnd = FWD | REV

text \<open>
  Modelled from the spec: \<^verbatim>\<open>MinimizerInfo\<close>, its comparison operators and the types
  \<^verbatim>\<open>hash_t\<close>, \<^verbatim>\<open>offset_t\<close>, \<^verbatim>\<open>seqno_t\<close> come with \<^verbatim>\<open>map_parameters.hpp\<close>
  as well. The hash is a fixed-width unsigned integer, here a word of any width \<open>'h\<close>.
  A record holds hash, sequence id, window position and strand, in the order of the
  aggregate initialiser \<^verbatim>\<open>MinimizerInfo{currentKmer, seqCounter, 0, currentStrand}\<close>.
  Identity of records is value equality across all fields, which is the equality of the
  HOL record; the comment of the code on the assignment of \<^verbatim>\<open>wpos\<close> (``this step also
  ensures we don't re-insert the same minimizer again'') relies on the window position
  taking part in the comparison \<^verbatim>\<open>minimizerIndex.back() != Q.front().first\<close>.
\<close>

record (overloaded) ('h::len) MinimizerInfo =
  hash :: "'h word"
  seqId :: int
  wpos :: int
  strand :: strnd

text \<open>An entry of the deque \<^verbatim>\<open>Q\<close>: the candidate and the position of its k-mer.\<close>

type_synonym 'h queue = "('h MinimizerInfo \<times> int) list"

subsection \<open>reverseComplement\<close>

text \<open>The \<^verbatim>\<open>switch\<close> on the base.\<close>

definition complement_base :: "char \<Rightarrow> char" where
  "complement_base base =
     (if base = CHR ''A'' then CHR ''T''
      else if base = CHR ''C'' then CHR ''G''
      else if base = CHR ''G'' then CHR ''C''
      else if base = CHR ''T'' then CHR ''A''
      else base)"

text \<open>
  The loop \<^verbatim>\<open>for (int i = 0; i < length; i++) dest[length - i - 1] = base\<close>,
  started at \<open>i\<close>. The buffers hold at least \<open>len\<close> bytes (\<^verbatim>\<open>dest\<close> is pre-allocated).
\<close>

function reverseComplement_loop :: "char list \<Rightarrow> char list \<Rightarrow> int \<Rightarrow> int \<Rightarrow> char list" where
  "reverseComplement_loop src dest len i =
     (if i < len
      then reverseComplement_loop src
             (dest[nat (len - i - 1) := complement_base (src ! nat i)]) len (i + 1)
      else dest)"
  by pat_completeness auto
termination
  by (relation "measure (\<lambda>(src, dest, len, i). nat (len - i))") auto

declare reverseComplement_loop.simps [simp del]

definition reverseComplement :: "char list \<Rightarrow> char list \<Rightarrow> int \<Rightarrow> char list" where
  "reverseComplement src dest len = reverseComplement_loop src dest len 0"

subsection \<open>makeUpperCase\<close>

text \<open>
  \<^verbatim>\<open>if (seq[i] > 96 && seq[i] < 123) seq[i] -= 32\<close>. Whether \<^verbatim>\<open>char\<close> is signed or
  not, exactly the bytes 97 to 122 pass the test. The buffer holds at least \<open>len\<close> bytes.
\<close>

function makeUpperCase_loop :: "char list \<Rightarrow> int \<Rightarrow> int \<Rightarrow> char list" where
  "makeUpperCase_loop seq len i =
     (if i < len
      then makeUpperCase_loop
             (if (96::nat) < of_char (seq ! nat i) \<and> of_char (seq ! nat i) < (123::nat)
              then seq[nat i := char_of (of_char (seq ! nat i) - (32::nat))]
              else seq) len (i + 1)
      else seq)"
  by pat_completeness auto
termination
  by (relation "measure (\<lambda>(seq, len, i). nat (len - i))") auto

declare makeUpperCase_loop.simps [simp del]

definition makeUpperCase :: "char list \<Rightarrow> int \<Rightarrow> char list" where
  "makeUpperCase seq len = makeUpperCase_loop seq len 0"

subsection \<open>getHash\<close>

text \<open>
  \<^verbatim>\<open>MurmurHash3_x64_128\<close> (\<^verbatim>\<open>common/murmur3.h\<close>) is not among the sources: the
  function \<open>H\<close> from the hashed bytes to the hash value stands for it, with the fixed seed
  inside. \<^verbatim>\<open>getHash(seq + off, length)\<close> hashes the \<open>length\<close> bytes from offset \<open>off\<close>.
\<close>

definition getHash :: "(char list \<Rightarrow> 'h::len word) \<Rightarrow> char list \<Rightarrow> int \<Rightarrow> int \<Rightarrow> 'h word" where
  "getHash H seq off kmerSize = H (take (nat kmerSize) (drop (nat off) seq))"

subsection \<open>addMinimizers\<close>

text \<open>\<^verbatim>\<open>while(!Q.empty() && Q.front().second <= i - windowSize) Q.pop_front();\<close>\<close>

fun pop_front_loop :: "'h::len queue \<Rightarrow> int \<Rightarrow> 'h queue" where
  "pop_front_loop [] bound = []"
| "pop_front_loop (c # Q) bound =
     (if snd c \<le> bound then pop_front_loop Q bound else c # Q)"

text \<open>\<^verbatim>\<open>while(!Q.empty() && Q.back().first.hash >= currentKmer) Q.pop_back();\<close>\<close>

function pop_back_loop :: "'h::len queue \<Rightarrow> 'h word \<Rightarrow> 'h queue" where
  "pop_back_loop Q currentKmer =
     (if Q \<noteq> [] \<and> currentKmer \<le> hash (fst (last Q))
      then pop_back_loop (butlast Q) currentKmer
      else Q)"
  by pat_completeness auto
termination
  by (relation "measure (\<lambda>(Q, currentKmer). length Q)") auto

declare pop_back_loop.simps [simp del]

text \<open>
  \<^verbatim>\<open>Q.front().first.wpos = currentWindowId\<close>: \<^verbatim>\<open>front()\<close> returns a reference, so
  the assignment changes the entry held in the deque.
\<close>

fun set_front_wpos :: "'h::len queue \<Rightarrow> int \<Rightarrow> 'h queue" where
  "set_front_wpos [] currentWindowId = []"
| "set_front_wpos ((m, p) # Q) currentWindowId = (m\<lparr>wpos := currentWindowId\<rparr>, p) # Q"

text \<open>
  The block guarded by \<^verbatim>\<open>if(hashBwd != hashFwd)\<close>, on the state made of the deque and
  the index. The deque is not empty when its front is read: an entry has just been
  pushed.
\<close>

definition consider_kmer ::
  "int \<Rightarrow> int \<Rightarrow> int \<Rightarrow> 'h::len word \<Rightarrow> 'h word \<Rightarrow>
   'h queue \<times> 'h MinimizerInfo list \<Rightarrow> 'h queue \<times> 'h MinimizerInfo list" where
  "consider_kmer windowSize seqCounter i hashFwd hashBwd st =
     (let Q = fst st; minimizerIndex = snd st;
          currentWindowId = i - windowSize + 1;
          currentKmer = min hashFwd hashBwd;
          currentStrand = (if hashFwd < hashBwd then FWD else REV);
          Q1 = pop_front_loop Q (i - windowSize);
          Q2 = pop_back_loop Q1 currentKmer;
          Q3 = Q2 @ [(\<lparr>hash = currentKmer, seqId = seqCounter, wpos = 0,
                       strand = currentStrand\<rparr>, i)]
      in if 0 \<le> currentWindowId
         then if minimizerIndex = [] \<or> last minimizerIndex \<noteq> fst (hd Q3)
              then let Q4 = set_front_wpos Q3 currentWindowId
                   in (Q4, minimizerIndex @ [fst (hd Q4)])
              else (Q3, minimizerIndex)
         else (Q3, minimizerIndex))"

text \<open>The two hashes of the k-mer at position \<open>i\<close>.\<close>

definition hashFwd_at :: "(char list \<Rightarrow> 'h::len word) \<Rightarrow> char list \<Rightarrow> int \<Rightarrow> int \<Rightarrow> 'h word" where
  "hashFwd_at H seq kmerSize i = getHash H seq i kmerSize"

definition hashBwd_at ::
  "(char list \<Rightarrow> 'h::len word) \<Rightarrow> char list \<Rightarrow> int \<Rightarrow> int \<Rightarrow> int \<Rightarrow> int \<Rightarrow> 'h word" where
  "hashBwd_at H seqRev len kmerSize alphabetSize i =
     (if alphabetSize = 4
      then getHash H seqRev (len - i - kmerSize) kmerSize
      else - 1)"

text \<open>The body of the \<^verbatim>\<open>for\<close> loop at position \<open>i\<close>.\<close>

definition loop_body ::
  "(char list \<Rightarrow> 'h::len word) \<Rightarrow> char list \<Rightarrow> char list \<Rightarrow> int \<Rightarrow> int \<Rightarrow> int \<Rightarrow> int \<Rightarrow> int \<Rightarrow>
   int \<Rightarrow> 'h queue \<times> 'h MinimizerInfo list \<Rightarrow> 'h queue \<times> 'h MinimizerInfo list" where
  "loop_body H seq seqRev len kmerSize windowSize alphabetSize seqCounter i st =
     (let hashFwd = hashFwd_at H seq kmerSize i;
          hashBwd = hashBwd_at H seqRev len kmerSize alphabetSize i
      in if hashBwd \<noteq> hashFwd
         then consider_kmer windowSize seqCounter i hashFwd hashBwd st
         else st)"

text \<open>
  The header \<^verbatim>\<open>for(offset_t i = start; i < bound; i++)\<close>: the positions visited,
  in order.
\<close>

function loop_positions :: "int \<Rightarrow> int \<Rightarrow> int list" where
  "loop_positions i bound = (if i < bound then i # loop_positions (i + 1) bound else [])"
  by pat_completeness auto
termination
  by (relation "measure (\<lambda>(i, bound). nat (bound - i))") auto

declare loop_positions.simps [simp del]

text \<open>
  The loop run over the positions below \<open>bound\<close>, from the state \<open>st\<close>.
  \<^verbatim>\<open>addMinimizers\<close> runs it with \<open>bound = len - kmerSize + 1\<close> from the empty deque; a
  smaller bound gives the state after the first \<open>bound\<close> iterations.
\<close>

definition addMinimizers_scan ::
  "(char list \<Rightarrow> 'h::len word) \<Rightarrow> char list \<Rightarrow> char list \<Rightarrow> int \<Rightarrow> int \<Rightarrow> int \<Rightarrow> int \<Rightarrow> int \<Rightarrow>
   int \<Rightarrow> 'h queue \<times> 'h MinimizerInfo list \<Rightarrow> 'h queue \<times> 'h MinimizerInfo list" where
  "addMinimizers_scan H seq seqRev len kmerSize windowSize alphabetSize seqCounter bound st =
     fold (loop_body H seq seqRev len kmerSize windowSize alphabetSize seqCounter)
       (loop_positions 0 bound) st"

text \<open>
  \<^verbatim>\<open>addMinimizers\<close>. \<open>seqRev0\<close> is the content of the buffer \<^verbatim>\<open>new char[len]\<close> as
  allocated, which the code does not initialise. The result is the sequence buffer as
  the call leaves it, and the index.
\<close>

definition addMinimizers ::
  "(char list \<Rightarrow> 'h::len word) \<Rightarrow> char list \<Rightarrow> 'h MinimizerInfo list \<Rightarrow> char list \<Rightarrow> int \<Rightarrow>
   int \<Rightarrow> int \<Rightarrow> int \<Rightarrow> int \<Rightarrow> char list \<times> 'h MinimizerInfo list" where
  "addMinimizers H seqRev0 minimizerIndex seq len kmerSize windowSize alphabetSize seqCounter =
     (let seq1 = makeUpperCase seq len;
          seqRev = (if alphabetSize = 4 then reverseComplement seq1 seqRev0 len else seqRev0)
      in (seq1,
          snd (addMinimizers_scan H seq1 seqRev len kmerSize windowSize alphabetSize seqCounter
                 (len - kmerSize + 1) ([], minimizerIndex))))"

subsection \<open>getReferenceSize\<close>

text \<open>
  The file system is a map from a path to the size of the file, \<open>None\<close> for a path that
  cannot be opened. \<^verbatim>\<open>std::ifstream in(f, ate | binary); in.tellg()\<close> is the end
  offset of a file that opened, and \<open>-1\<close> for a stream whose \<^verbatim>\<open>fail()\<close> is set.
\<close>

definition tellg_at_end :: "(string \<rightharpoonup> nat) \<Rightarrow> string \<Rightarrow> int" where
  "tellg_at_end fs f = (case fs f of None \<Rightarrow> - 1 | Some n \<Rightarrow> int n)"

text \<open>The loop \<^verbatim>\<open>for(auto &f : refSequences) count += (uint64_t)(in.tellg());\<close>\<close>

fun getReferenceSize_loop :: "(string \<rightharpoonup> nat) \<Rightarrow> string list \<Rightarrow> 64 word \<Rightarrow> 64 word" where
  "getReferenceSize_loop fs [] count = count"
| "getReferenceSize_loop fs (f # refSequences) count =
     getReferenceSize_loop fs refSequences (count + word_of_int (tellg_at_end fs f))"

definition getReferenceSize :: "(string \<rightharpoonup> nat) \<Rightarrow> string list \<Rightarrow> 64 word" where
  "getReferenceSize fs refSequences = getReferenceSize_loop fs refSequences 0"

subsection \<open>A sample hash function\<close>

text \<open>
  The examples need a hash function that can be evaluated; where the hash values only
  have to be easy to follow by hand, they use this polynomial hash of the bytes. No
  theorem about all inputs depends on it.
\<close>

definition sampleHash :: "char list \<Rightarrow> 'h::len word" where
  "sampleHash bytes = fold (\<lambda>c h. h * 31 + of_nat (of_char c)) bytes 0"

subsection \<open>MurmurHash3\<close>

unbundle bit_operations_syntax

text \<open>
  Modelled from the spec: the hasher is a 128-bit mixing function with one fixed seed,
  interpreted at the hash width. The source names it: \<^verbatim>\<open>getHash\<close> calls
  \<^verbatim>\<open>MurmurHash3_x64_128(seq, length, seed, data)\<close> with \<^verbatim>\<open>seed = 42\<close> and returns the
  first \<^verbatim>\<open>sizeof(hash_t)\<close> bytes of the 16 bytes written; but \<^verbatim>\<open>common/murmur3.h\<close> is
  not among the sources. What follows is the published algorithm of that name: the
  rotation, the final mix, a little-endian block of up to eight bytes, the mixing of the
  two halves of a block, the loop over the 16-byte blocks with the tail, and the
  finalisation. It serves to evaluate the code at a concrete input; no theorem about all
  inputs depends on it.
\<close>

definition rotl64 :: "64 word \<Rightarrow> nat \<Rightarrow> 64 word" where
  "rotl64 x r = push_bit r x OR drop_bit (64 - r) x"

definition fmix64 :: "64 word \<Rightarrow> 64 word" where
  "fmix64 k =
     (let k1 = k XOR drop_bit 33 k;
          k2 = k1 * 0xff51afd7ed558ccd;
          k3 = k2 XOR drop_bit 33 k2;
          k4 = k3 * 0xc4ceb9fe1a85ec53
      in k4 XOR drop_bit 33 k4)"

fun getblock64 :: "char list \<Rightarrow> 64 word" where
  "getblock64 [] = 0"
| "getblock64 (b # bs) = of_nat (of_char b) OR push_bit 8 (getblock64 bs)"

definition mix_k1 :: "64 word \<Rightarrow> 64 word" where
  "mix_k1 k1 = rotl64 (k1 * 0x87c37b91114253d5) 31 * 0x4cf5ad432745937f"

definition mix_k2 :: "64 word \<Rightarrow> 64 word" where
  "mix_k2 k2 = rotl64 (k2 * 0x4cf5ad432745937f) 33 * 0x87c37b91114253d5"

function murmur_body :: "char list \<Rightarrow> 64 word \<Rightarrow> 64 word \<Rightarrow> 64 word \<times> 64 word" where
  "murmur_body data h1 h2 =
     (if 16 \<le> length data
      then let k1 = getblock64 (take 8 data);
               k2 = getblock64 (take 8 (drop 8 data));
               h1a = h1 XOR mix_k1 k1;
               h1b = (rotl64 h1a 27 + h2) * 5 + 0x52dce729;
               h2a = h2 XOR mix_k2 k2;
               h2b = (rotl64 h2a 31 + h1b) * 5 + 0x38495ab5
           in murmur_body (drop 16 data) h1b h2b
      else let h2t = (if 8 < length data then h2 XOR mix_k2 (getblock64 (drop 8 data)) else h2);
               h1t = (if 0 < length data then h1 XOR mix_k1 (getblock64 (take 8 data)) else h1)
           in (h1t, h2t))"
  by pat_completeness auto
termination
  by (relation "measure (\<lambda>(data, h1, h2). length data)") auto

declare murmur_body.simps [simp del]

definition MurmurHash3_x64_128 :: "char list \<Rightarrow> 32 word \<Rightarrow> 64 word \<times> 64 word" where
  "MurmurHash3_x64_128 key seed =
     (let (h1, h2) = murmur_body key (ucast seed) (ucast seed);
          h1a = h1 XOR of_nat (length key);
          h2a = h2 XOR of_nat (length key);
          h1b = h1a + h2a;
          h2b = h2a + h1b;
          h1c = fmix64 h1b;
          h2c = fmix64 h2b;
          h1d = h1c + h2c;
          h2d = h2c + h1d
      in (h1d, h2d))"

text \<open>
  The hash function of \<^verbatim>\<open>getHash\<close>: on a little-endian machine the first bytes of the
  output are the low bits of its first half.
\<close>

definition murmurHash :: "char list \<Rightarrow> 'h::len word" where
  "murmurHash bytes = ucast (fst (MurmurHash3_x64_128 bytes 42))"

subsection \<open>Notions used in the statements\<close>

text \<open>What \<^verbatim>\<open>makeUpperCase\<close> does to one byte.\<close>

definition upper_byte :: "char \<Rightarrow> char" where
  "upper_byte c = (if (96::nat) < of_char c \<and> of_char c < (123::nat)
                   then char_of (of_char c - (32::nat)) else c)"

text \<open>A position is non-symmetric when its two hashes differ, the test of the loop body.\<close>

definition nonsymmetric ::
  "(char list \<Rightarrow> 'h::len word) \<Rightarrow> char list \<Rightarrow> char list \<Rightarrow> int \<Rightarrow> int \<Rightarrow> int \<Rightarrow> int \<Rightarrow> bool" where
  "nonsymmetric H seq seqRev len kmerSize alphabetSize i \<longleftrightarrow>
     hashBwd_at H seqRev len kmerSize alphabetSize i \<noteq> hashFwd_at H seq kmerSize i"

text \<open>The canonical hash of the k-mer at a position.\<close>

definition canonical_hash ::
  "(char list \<Rightarrow> 'h::len word) \<Rightarrow> char list \<Rightarrow> char list \<Rightarrow> int \<Rightarrow> int \<Rightarrow> int \<Rightarrow> int \<Rightarrow> 'h word" where
  "canonical_hash H seq seqRev len kmerSize alphabetSize i =
     min (hashFwd_at H seq kmerSize i) (hashBwd_at H seqRev len kmerSize alphabetSize i)"

text \<open>
  The canonical hashes of the non-symmetric k-mers whose position lies in the window
  \<open>c\<close>, that is among the positions \<open>c, \<dots>, c + windowSize - 1\<close>.
\<close>

definition window_hashes ::
  "(char list \<Rightarrow> 'h::len word) \<Rightarrow> char list \<Rightarrow> char list \<Rightarrow> int \<Rightarrow> int \<Rightarrow> int \<Rightarrow> int \<Rightarrow> int \<Rightarrow>
   'h word list" where
  "window_hashes H seq seqRev len kmerSize windowSize alphabetSize c =
     map (canonical_hash H seq seqRev len kmerSize alphabetSize)
       (filter (nonsymmetric H seq seqRev len kmerSize alphabetSize) [c..c + windowSize - 1])"

text \<open>
  Two bytes that differ at most in the ASCII case of a letter: they are equal, or one of
  them is a lower-case letter (97 to 122) and the other one its upper-case form.
\<close>

definition same_up_to_case :: "char \<Rightarrow> char \<Rightarrow> bool" where
  "same_up_to_case x y \<longleftrightarrow>
     x = y \<or>
     ((96::nat) < of_char x \<and> of_char x < (123::nat) \<and> of_char y + (32::nat) = of_char x) \<or>
     ((96::nat) < of_char y \<and> of_char y < (123::nat) \<and> of_char x + (32::nat) = of_char y)"

subsection \<open>Notions used in the proofs\<close>

text \<open>What the loop looks at in the deque: the hash and the origin position of each entry.\<close>

definition keys :: "'h::len queue \<Rightarrow> ('h word \<times> int) list" where
  "keys Q = map (\<lambda>c. (hash (fst c), snd c)) Q"

text \<open>
  The effect on the keys of the two eviction loops followed by the push of the candidate
  with hash \<open>c\<close> at position \<open>i\<close>.
\<close>

definition push_key ::
  "int \<Rightarrow> int \<Rightarrow> 'h::len word \<Rightarrow> ('h word \<times> int) list \<Rightarrow> ('h word \<times> int) list" where
  "push_key w i c P =
     rev (dropWhile (\<lambda>x. c \<le> fst x) (rev (dropWhile (\<lambda>x. snd x \<le> i - w) P))) @ [(c, i)]"

text \<open>
  The invariant of the deque after the positions below \<open>n\<close>: positions and hashes
  increase strictly from front to back; every entry is the canonical hash of a
  non-symmetric position below \<open>n\<close>; and every non-symmetric position among the last
  \<open>w\<close> ones is dominated by an entry at the same or a later position whose hash is not
  larger.
\<close>

definition key_inv ::
  "(int \<Rightarrow> bool) \<Rightarrow> (int \<Rightarrow> 'h::len word) \<Rightarrow> int \<Rightarrow> int \<Rightarrow> ('h word \<times> int) list \<Rightarrow> bool" where
  "key_inv ns ch w n P \<longleftrightarrow>
     sorted_wrt (<) (map snd P) \<and>
     sorted_wrt (<) (map fst P) \<and>
     (\<forall>x \<in> set P. 0 \<le> snd x \<and> snd x < n \<and> ns (snd x) \<and> fst x = ch (snd x)) \<and>
     (\<forall>j. 0 \<le> j \<and> n - w \<le> j \<and> j < n \<and> ns j \<longrightarrow>
          (\<exists>x \<in> set P. j \<le> snd x \<and> fst x \<le> ch j))"

section \<open>The helpers\<close>


lemma drop_update_here: "n < length xs \<Longrightarrow> drop n (xs[n := x]) = x # drop (Suc n) xs"
proof -
  assume n: "n < length xs"
  then have "drop n (xs[n := x]) = (xs[n := x]) ! n # drop (Suc n) (xs[n := x])"
    using Cons_nth_drop_Suc [of n "xs[n := x]"] by simp
  with n show ?thesis by simp
qed

lemma reverseComplement_loop_eq:
  "0 \<le> i \<Longrightarrow> i \<le> len \<Longrightarrow> nat len \<le> length src \<Longrightarrow> nat len \<le> length dest \<Longrightarrow>
   reverseComplement_loop src dest len i =
     rev (map complement_base (take (nat (len - i)) (drop (nat i) src))) @ drop (nat (len - i)) dest"
proof (induction src dest len i rule: reverseComplement_loop.induct)
  case (1 src dest len i)
  show ?case
  proof (cases "i < len")
    case False
    with 1(3) have "i = len" by simp
    then show ?thesis
      by (simp add: reverseComplement_loop.simps [of src dest len len])
  next
    case True
    let ?d = "dest[nat (len - i - 1) := complement_base (src ! nat i)]"
    have IH: "reverseComplement_loop src ?d len (i + 1) =
        rev (map complement_base (take (nat (len - (i + 1))) (drop (nat (i + 1)) src))) @
        drop (nat (len - (i + 1))) ?d"
      using 1 True by simp
    have n1: "nat (len - i) = Suc (nat (len - (i + 1)))"
      using True 1(2) by simp
    have n2: "nat (i + 1) = Suc (nat i)"
      using 1(2) by simp
    have lt: "nat i < length src"
      using True 1(2,4) by linarith
    have ltd: "nat (len - (i + 1)) < length dest"
      using True 1(2,5) by linarith
    have src_split: "take (nat (len - i)) (drop (nat i) src) =
        src ! nat i # take (nat (len - (i + 1))) (drop (nat (i + 1)) src)"
      using lt by (simp add: n1 n2 Cons_nth_drop_Suc [symmetric])
    have e: "len - i - 1 = len - (i + 1)" by simp
    have dest_split: "drop (nat (len - (i + 1))) ?d =
        complement_base (src ! nat i) # drop (nat (len - i)) dest"
      using ltd unfolding e n1 by (rule drop_update_here)
    show ?thesis
      using True IH by (simp add: reverseComplement_loop.simps [of src dest len i] src_split dest_split)
  qed
qed

lemma reverseComplement_eq:
  "length src = nat len \<Longrightarrow> length dest = nat len \<Longrightarrow> 
   reverseComplement src dest len = rev (map complement_base src)"
  apply (cases "0 \<le> len")
  apply (simp add: reverseComplement_def reverseComplement_loop_eq)
  apply (simp add: reverseComplement_def reverseComplement_loop.simps [of _ _ len 0])
  done

lemma complement_base_involution: "complement_base (complement_base c) = c"
  by (simp add: complement_base_def)

lemma makeUpperCase_loop_eq:
  "0 \<le> i \<Longrightarrow> i \<le> len \<Longrightarrow> nat len \<le> length seq \<Longrightarrow>
   makeUpperCase_loop seq len i =
     take (nat i) seq @ map upper_byte (take (nat (len - i)) (drop (nat i) seq)) @ drop (nat len) seq"
proof (induction seq len i rule: makeUpperCase_loop.induct)
  case (1 seq len i)
  show ?case
  proof (cases "i < len")
    case False
    with 1(3) have "i = len" by simp
    then show ?thesis
      by (simp add: makeUpperCase_loop.simps [of seq len len])
  next
    case True
    let ?s = "seq[nat i := upper_byte (seq ! nat i)]"
    have step: "makeUpperCase_loop seq len i = makeUpperCase_loop ?s len (i + 1)"
      using True by (simp add: makeUpperCase_loop.simps [of seq len i] upper_byte_def)
    have s_eq: "(if (96::nat) < of_char (seq ! nat i) \<and> of_char (seq ! nat i) < (123::nat)
              then seq[nat i := char_of (of_char (seq ! nat i) - (32::nat))]
              else seq) = ?s"
      by (simp add: upper_byte_def)
    have IH: "makeUpperCase_loop ?s len (i + 1) =
       take (nat (i + 1)) ?s @ map upper_byte (take (nat (len - (i + 1))) (drop (nat (i + 1)) ?s)) @ drop (nat len) ?s"
      using 1(1) [OF True] 1(2-) True unfolding s_eq by simp
    have n1: "nat (len - i) = Suc (nat (len - (i + 1)))"
      using True 1(2) by simp
    have n2: "nat (i + 1) = Suc (nat i)"
      using 1(2) by simp
    have lt: "nat i < length seq"
      using True 1(2,4) by linarith
    have lt2: "nat i < nat len" using True 1(2) by simp
    have a: "take (Suc (nat i)) ?s = take (nat i) seq @ [upper_byte (seq ! nat i)]"
      using lt by (simp add: take_Suc_conv_app_nth)
    have b: "drop (Suc (nat i)) ?s = drop (Suc (nat i)) seq"
      by simp
    have c: "drop (nat len) ?s = drop (nat len) seq"
      using lt2 by simp
    have d: "take (nat (len - i)) (drop (nat i) seq) =
        seq ! nat i # take (nat (len - (i + 1))) (drop (Suc (nat i)) seq)"
      using lt by (simp add: n1 Cons_nth_drop_Suc [symmetric])
    show ?thesis
      unfolding step IH n2 a b c d by simp
  qed
qed

lemma makeUpperCase_eq:
  "nat len \<le> length seq \<Longrightarrow>
   makeUpperCase seq len = map upper_byte (take (nat len) seq) @ drop (nat len) seq"
  apply (cases "0 \<le> len")
  apply (simp add: makeUpperCase_def makeUpperCase_loop_eq)
  apply (simp add: makeUpperCase_def makeUpperCase_loop.simps [of _ len 0])
  done


lemma loop_positions_upto: "loop_positions i bound = [i..bound - 1]"
proof (induction i bound rule: loop_positions.induct)
  case (1 i bound)
  show ?case
  proof (cases "i < bound")
    case True
    then have "[i..bound - 1] = i # [i + 1..bound - 1]"
      by (simp add: upto_rec1)
    with True 1 show ?thesis
      by (simp add: loop_positions.simps [of i bound])
  next
    case False
    then show ?thesis
      by (simp add: loop_positions.simps [of i bound])
  qed
qed

section \<open>reverseComplement is an involution\<close>

text \<open>
  Claim C6. For a string over A, C, G, T of any length, reverse-complementing it into a
  buffer of that length and reverse-complementing the result again gives the string
  back, whatever the buffers held before.
\<close>

theorem reverseComplement_twice:
  assumes "set s \<subseteq> {CHR ''A'', CHR ''C'', CHR ''G'', CHR ''T''}"
    and "length d1 = length s" and "length d2 = length s"
  shows "reverseComplement (reverseComplement s d1 (int (length s))) d2 (int (length s)) = s"
proof -
  have "reverseComplement s d1 (int (length s)) = rev (map complement_base s)"
    using assms(2) by (simp add: reverseComplement_eq)
  moreover have "reverseComplement (rev (map complement_base s)) d2 (int (length s)) =
      rev (map complement_base (rev (map complement_base s)))"
    using assms(3) by (simp add: reverseComplement_eq)
  moreover have "map (complement_base \<circ> complement_base) s = s"
    by (simp add: map_idI complement_base_involution)
  ultimately show ?thesis
    by (simp add: rev_map)
qed

theorem reverseComplement_twice_witness:
  "set ''ACGGT'' \<subseteq> {CHR ''A'', CHR ''C'', CHR ''G'', CHR ''T''} \<and>
   reverseComplement (reverseComplement ''ACGGT'' ''.....'' 5) ''-----'' 5 = ''ACGGT''"
  using reverseComplement_twice [of "''ACGGT''" "''.....''" "''-----''"] by simp

section \<open>Sequences too short for a window\<close>

lemma below_window_index_unchanged:
  "i - w + 1 < 0 \<Longrightarrow> snd (loop_body H seq seqRev len k w a sc i st) = snd st"
  by (simp add: loop_body_def consider_kmer_def Let_def)

lemma fold_below_window_index_unchanged:
  "\<forall>i \<in> set ps. i - w + 1 < 0 \<Longrightarrow>
   snd (fold (loop_body H seq seqRev len k w a sc) ps st) = snd st"
  by (induction ps arbitrary: st) (simp_all add: below_window_index_unchanged)

text \<open>
  Claim C8. When \<open>len < kmerSize + windowSize - 1\<close> (which covers \<open>len < kmerSize\<close> for
  \<open>windowSize \<ge> 1\<close>), \<open>addMinimizers\<close> returns the index it was given: nothing is
  appended. The function has no error value: it is total, and returns a buffer and an
  index for every input.
\<close>

theorem too_short_appends_nothing:
  assumes "len < kmerSize + windowSize - 1"
  shows "snd (addMinimizers H seqRev0 minimizerIndex seq len kmerSize windowSize alphabetSize
            seqCounter) = minimizerIndex"
proof -
  have "\<forall>i \<in> set (loop_positions 0 (len - kmerSize + 1)). i - windowSize + 1 < 0"
    using assms by (auto simp: loop_positions_upto)
  then show ?thesis
    by (simp add: addMinimizers_def addMinimizers_scan_def Let_def
        fold_below_window_index_unchanged)
qed

theorem too_short_appends_nothing_witness:
  "(5::int) < 3 + 4 - 1 \<and>
   snd (addMinimizers (sampleHash :: char list \<Rightarrow> 32 word) ''.....'' [] ''GATTA'' 5 3 4 4 0) = []"
  using too_short_appends_nothing [of 5 3 4 "sampleHash :: char list \<Rightarrow> 32 word" "''.....''" "[]"
      "''GATTA''" 4 0]
  by simp

section \<open>The deque as a sliding-window minimum\<close>

lemma keys_pop_front: "keys (pop_front_loop Q b) = dropWhile (\<lambda>x. snd x \<le> b) (keys Q)"
  by (induction Q) (simp_all add: keys_def)

lemma pop_back_loop_snoc:
  "pop_back_loop (Q @ [c]) k = (if k \<le> hash (fst c) then pop_back_loop Q k else Q @ [c])"
  by (subst pop_back_loop.simps) simp

lemma pop_back_loop_Nil: "pop_back_loop [] k = []"
  by (subst pop_back_loop.simps) simp

lemma keys_pop_back:
  "keys (pop_back_loop Q k) = rev (dropWhile (\<lambda>x. k \<le> fst x) (rev (keys Q)))"
  by (induction Q rule: rev_induct) (simp_all add: pop_back_loop_Nil pop_back_loop_snoc keys_def)

lemma keys_set_front_wpos: "keys (set_front_wpos Q c) = keys Q"
  by (cases Q) (auto simp: keys_def)

lemma keys_consider_kmer:
  "keys (fst (consider_kmer w sc i hf hb (Q, idx))) = push_key w i (min hf hb) (keys Q)"
  by (simp add: consider_kmer_def Let_def keys_set_front_wpos push_key_def
      keys_pop_back [symmetric] keys_pop_front [symmetric])
     (simp add: keys_def)

lemma dropWhile_front_above:
  "sorted_wrt (<) (map snd P) \<Longrightarrow> \<forall>x \<in> set (dropWhile (\<lambda>x. snd x \<le> b) P). b < snd (x :: 'a \<times> int)"
  by (induction P) auto

lemma dropWhile_front_keeps:
  "x \<in> set P \<Longrightarrow> b < snd x \<Longrightarrow> x \<in> set (dropWhile (\<lambda>x. snd x \<le> (b::int)) P)"
  by (induction P) auto

lemma sorted_wrt_map_dropWhile:
  "sorted_wrt R (map f P) \<Longrightarrow> sorted_wrt R (map f (dropWhile G P))"
  by (induction P) auto

lemma back_split:
  "\<exists>R. P = rev (dropWhile G (rev P)) @ R \<and> (\<forall>x \<in> set R. G x)"
proof (induction P rule: rev_induct)
  case Nil
  show ?case by simp
next
  case (snoc y ys)
  then obtain R where R: "ys = rev (dropWhile G (rev ys)) @ R" "\<forall>x \<in> set R. G x"
    by blast
  show ?case
  proof (cases "G y")
    case True
    have "ys @ [y] = rev (dropWhile G (rev (ys @ [y]))) @ (R @ [y])"
      using True R(1) by simp
    moreover have "\<forall>x \<in> set (R @ [y]). G x"
      using True R(2) by simp
    ultimately show ?thesis by blast
  next
    case False
    then have "ys @ [y] = rev (dropWhile G (rev (ys @ [y]))) @ []"
      by simp
    then show ?thesis by (intro exI [of _ "[]"]) simp
  qed
qed

lemma sorted_back_below:
  fixes P :: "('a::linorder \<times> 'b) list"
  shows "sorted_wrt (<) (map fst P) \<Longrightarrow>
    \<forall>x \<in> set (rev (dropWhile (\<lambda>x. c \<le> fst x) (rev P))). fst x < c"
  by (induction P rule: rev_induct) (auto simp: sorted_wrt_append)

lemma key_inv_init: "key_inv ns ch w 0 []"
  by (simp add: key_inv_def)

lemma key_inv_sorted:
  "key_inv ns ch w n P \<Longrightarrow> sorted_wrt (<) (map snd P) \<and> sorted_wrt (<) (map fst P)"
  unfolding key_inv_def by blast

lemma key_inv_elem:
  "key_inv ns ch w n P \<Longrightarrow> x \<in> set P \<Longrightarrow>
   0 \<le> snd x \<and> snd x < n \<and> ns (snd x) \<and> fst x = ch (snd x)"
  unfolding key_inv_def by blast

lemma key_inv_cover:
  "key_inv ns ch w n P \<Longrightarrow> 0 \<le> j \<Longrightarrow> n - w \<le> j \<Longrightarrow> j < n \<Longrightarrow> ns j \<Longrightarrow>
   \<exists>x \<in> set P. j \<le> snd x \<and> fst x \<le> ch j"
  unfolding key_inv_def by blast

lemma key_inv_skip:
  assumes "key_inv ns ch w i P" and "\<not> ns i"
  shows "key_inv ns ch w (i + 1) P"
  unfolding key_inv_def
proof (intro conjI allI impI ballI)
  show "sorted_wrt (<) (map snd P)" "sorted_wrt (<) (map fst P)"
    using key_inv_sorted [OF assms(1)] by simp_all
next
  fix x assume "x \<in> set P"
  then have "0 \<le> snd x \<and> snd x < i \<and> ns (snd x) \<and> fst x = ch (snd x)"
    using key_inv_elem [OF assms(1)] by blast
  then show "0 \<le> snd x" "snd x < i + 1" "ns (snd x)" "fst x = ch (snd x)"
    by simp_all
next
  fix j assume j: "0 \<le> j \<and> i + 1 - w \<le> j \<and> j < i + 1 \<and> ns j"
  with assms(2) have "j \<noteq> i" by auto
  with j have "0 \<le> j" "i - w \<le> j" "j < i" "ns j" by simp_all
  then show "\<exists>x \<in> set P. j \<le> snd x \<and> fst x \<le> ch j"
    by (rule key_inv_cover [OF assms(1)])
qed

lemma key_inv_push:
  assumes inv: "key_inv ns ch w i P" and ns: "ns i" and i: "0 \<le> i"
  shows "key_inv ns ch w (i + 1) (push_key w i (ch i) P)"
proof -
  define D where "D = dropWhile (\<lambda>x. snd x \<le> i - w) P"
  define K where "K = rev (dropWhile (\<lambda>x. ch i \<le> fst x) (rev D))"
  have push: "push_key w i (ch i) P = K @ [(ch i, i)]"
    by (simp add: push_key_def K_def D_def)
  have sP: "sorted_wrt (<) (map snd P)" and hP: "sorted_wrt (<) (map fst P)"
    using key_inv_sorted [OF inv] by simp_all
  have eP: "\<forall>x \<in> set P. 0 \<le> snd x \<and> snd x < i \<and> ns (snd x) \<and> fst x = ch (snd x)"
    using key_inv_elem [OF inv] by blast
  obtain R where R: "D = K @ R" "\<forall>x \<in> set R. ch i \<le> fst x"
    unfolding K_def using back_split [of D "\<lambda>x. ch i \<le> fst x"] by blast
  have DP: "set D \<subseteq> set P"
    unfolding D_def by (auto dest: set_dropWhileD)
  have KD: "set K \<subseteq> set D"
    using R(1) by simp
  have sD: "sorted_wrt (<) (map snd D)" and hD: "sorted_wrt (<) (map fst D)"
    unfolding D_def using sP hP by (simp_all add: sorted_wrt_map_dropWhile)
  have sK: "sorted_wrt (<) (map snd K)" and hK: "sorted_wrt (<) (map fst K)"
    using sD hD by (simp_all add: R(1) sorted_wrt_append)
  have below: "\<forall>x \<in> set K. fst x < ch i"
    unfolding K_def using sorted_back_below [OF hD] .
  have eK: "\<forall>x \<in> set K. 0 \<le> snd x \<and> snd x < i \<and> ns (snd x) \<and> fst x = ch (snd x)"
    using eP DP KD by blast
  have 1: "sorted_wrt (<) (map snd (K @ [(ch i, i)]))"
    using sK eK by (simp add: sorted_wrt_append)
  have 2: "sorted_wrt (<) (map fst (K @ [(ch i, i)]))"
    using hK below by (simp add: sorted_wrt_append)
  have 3: "\<forall>x \<in> set (K @ [(ch i, i)]).
             0 \<le> snd x \<and> snd x < i + 1 \<and> ns (snd x) \<and> fst x = ch (snd x)"
    using eK ns i by auto
  have 4: "\<forall>j. 0 \<le> j \<and> i + 1 - w \<le> j \<and> j < i + 1 \<and> ns j \<longrightarrow>
             (\<exists>x \<in> set (K @ [(ch i, i)]). j \<le> snd x \<and> fst x \<le> ch j)"
  proof (intro allI impI)
    fix j assume j: "0 \<le> j \<and> i + 1 - w \<le> j \<and> j < i + 1 \<and> ns j"
    have new: "(ch i, i) \<in> set (K @ [(ch i, i)])"
      by simp
    show "\<exists>x \<in> set (K @ [(ch i, i)]). j \<le> snd x \<and> fst x \<le> ch j"
    proof (cases "j = i")
      case True
      show ?thesis
        by (rule bexI [OF _ new]) (simp add: True)
    next
      case False
      with j have "0 \<le> j" "i - w \<le> j" "j < i" "ns j" by simp_all
      then obtain x where x: "x \<in> set P" "j \<le> snd x" "fst x \<le> ch j"
        using key_inv_cover [OF inv] by blast
      from j x(2) have "i - w < snd x" by simp
      with x(1) have "x \<in> set D" unfolding D_def by (rule dropWhile_front_keeps)
      then have "x \<in> set K \<or> x \<in> set R"
        by (simp add: R(1))
      then show ?thesis
      proof
        assume "x \<in> set K"
        then have "x \<in> set (K @ [(ch i, i)])" by simp
        with x show ?thesis by blast
      next
        assume "x \<in> set R"
        with R(2) have "ch i \<le> fst x" by blast
        with x(3) have "ch i \<le> ch j" by simp
        with j show ?thesis
          by (intro bexI [OF _ new]) simp
      qed
    qed
  qed
  show ?thesis
    unfolding key_inv_def push using 1 2 3 4 by blast
qed

lemma push_key_window:
  assumes "sorted_wrt (<) (map snd P)" and "\<forall>x \<in> set P. snd x < i" and "1 \<le> w"
  shows "\<forall>x \<in> set (push_key w i c P). i - w < snd x \<and> snd x \<le> i"
proof
  fix x assume "x \<in> set (push_key w i c P)"
  then have "x = (c, i) \<or> x \<in> set (dropWhile (\<lambda>x. snd x \<le> i - w) P)"
    by (auto simp: push_key_def dest: set_dropWhileD)
  then show "i - w < snd x \<and> snd x \<le> i"
  proof
    assume "x = (c, i)"
    with assms(3) show ?thesis by simp
  next
    assume x: "x \<in> set (dropWhile (\<lambda>x. snd x \<le> i - w) P)"
    then have "i - w < snd x"
      using dropWhile_front_above [OF assms(1)] by blast
    moreover have "x \<in> set P" using x by (rule set_dropWhileD)
    ultimately show ?thesis using assms(2) by force
  qed
qed

lemma front_is_window_min:
  fixes P :: "('h::len word \<times> int) list"
  assumes inv: "key_inv ns ch w (i + 1) P"
    and win: "\<forall>x \<in> set P. i - w < snd x \<and> snd x \<le> i"
    and ne: "P \<noteq> []" and cw: "0 \<le> i - w + 1"
  shows "fst (hd P) = Min (set (map ch (filter ns [i - w + 1..i])))"
proof -
  let ?W = "set (map ch (filter ns [i - w + 1..i]))"
  have hdP: "hd P \<in> set P" using ne by simp
  have hdf: "ns (snd (hd P))" "fst (hd P) = ch (snd (hd P))"
    using key_inv_elem [OF inv hdP] by simp_all
  have "i - w + 1 \<le> snd (hd P) \<and> snd (hd P) \<le> i"
    using win hdP by force
  with hdf have mem: "fst (hd P) \<in> ?W" by auto
  have hP: "sorted_wrt (<) (map fst P)"
    using key_inv_sorted [OF inv] by simp
  have front_le: "\<forall>x \<in> set P. fst (hd P) \<le> fst x"
    using hP ne by (cases P) auto
  have "\<forall>h \<in> ?W. fst (hd P) \<le> h"
  proof
    fix h assume "h \<in> ?W"
    then obtain j where j: "h = ch j" "ns j" "i - w + 1 \<le> j" "j \<le> i" by auto
    with cw have "0 \<le> j" "i + 1 - w \<le> j" "j < i + 1" "ns j" by simp_all
    then obtain x where "x \<in> set P" "fst x \<le> ch j"
      using key_inv_cover [OF inv] by blast
    with front_le j(1) show "fst (hd P) \<le> h" by force
  qed
  with mem show ?thesis
    by (intro Min_eqI [symmetric]) auto
qed

lemma scan_nonpos: "n \<le> 0 \<Longrightarrow> addMinimizers_scan H s r len k w a sc n st = st"
  by (simp add: addMinimizers_scan_def loop_positions_upto)

lemma scan_step:
  "0 \<le> n \<Longrightarrow> addMinimizers_scan H s r len k w a sc (n + 1) st =
     loop_body H s r len k w a sc n (addMinimizers_scan H s r len k w a sc n st)"
  by (simp add: addMinimizers_scan_def loop_positions_upto upto_rec2 [of 0 n])

lemma loop_body_nonsym:
  "nonsymmetric H s r len k a i \<Longrightarrow>
   loop_body H s r len k w a sc i st =
     consider_kmer w sc i (hashFwd_at H s k i) (hashBwd_at H r len k a i) st"
  by (simp add: loop_body_def nonsymmetric_def)

lemma loop_body_sym:
  "\<not> nonsymmetric H s r len k a i \<Longrightarrow> loop_body H s r len k w a sc i st = st"
  by (simp add: loop_body_def nonsymmetric_def)

lemma keys_loop_body:
  "keys (fst (loop_body H s r len k w a sc i st)) =
     (if nonsymmetric H s r len k a i
      then push_key w i (canonical_hash H s r len k a i) (keys (fst st))
      else keys (fst st))"
  using keys_consider_kmer [of w sc i _ _ "fst st" "snd st"]
  by (simp add: loop_body_nonsym loop_body_sym canonical_hash_def)

lemma scan_key_inv:
  assumes "0 \<le> n"
  shows "key_inv (nonsymmetric H s r len k a) (canonical_hash H s r len k a) w n
           (keys (fst (addMinimizers_scan H s r len k w a sc n ([], idx0))))"
  using assms
proof (induction n rule: int_ge_induct)
  case base
  show ?case by (simp add: scan_nonpos keys_def key_inv_init)
next
  case (step n)
  show ?case
  proof (cases "nonsymmetric H s r len k a n")
    case True
    then show ?thesis
      using key_inv_push [OF step.IH True step.hyps]
      by (simp add: scan_step [OF step.hyps] keys_loop_body)
  next
    case False
    then show ?thesis
      using key_inv_skip [OF step.IH False]
      by (simp add: scan_step [OF step.hyps] keys_loop_body)
  qed
qed

lemma consider_kmer_index:
  assumes "0 \<le> i - w + 1" and "consider_kmer w sc i hf hb (Q, idx) = (Q', idx')"
  shows "Q' \<noteq> [] \<and> idx' \<noteq> [] \<and> last idx' = fst (hd Q') \<and>
         (idx' = idx \<or> idx' = idx @ [last idx'] \<and> wpos (last idx') = i - w + 1)"
proof -
  define Q3 where "Q3 = pop_back_loop (pop_front_loop Q (i - w)) (min hf hb) @
     [(\<lparr>hash = min hf hb, seqId = sc, wpos = 0, strand = (if hf < hb then FWD else REV)\<rparr>, i)]"
  have ne: "Q3 \<noteq> []" by (simp add: Q3_def)
  then obtain m p rest where Q3: "Q3 = (m, p) # rest"
    by (cases Q3) auto
  show ?thesis
  proof (cases "idx = [] \<or> last idx \<noteq> fst (hd Q3)")
    case True
    then have "Q' = set_front_wpos Q3 (i - w + 1)"
      and "idx' = idx @ [fst (hd (set_front_wpos Q3 (i - w + 1)))]"
      using assms by (auto simp: consider_kmer_def Let_def Q3_def [symmetric])
    then show ?thesis by (simp add: Q3)
  next
    case False
    then have "Q' = Q3" and "idx' = idx"
      using assms by (auto simp: consider_kmer_def Let_def Q3_def [symmetric])
    with False ne show ?thesis by simp
  qed
qed

lemma hd_keys: "Q \<noteq> [] \<Longrightarrow> fst (hd (keys Q)) = hash (fst (hd Q))"
  by (cases Q) (simp_all add: keys_def)

lemma loop_body_appends: "\<exists>app. snd (loop_body H s r len k w a sc i st) = snd st @ app"
  by (simp add: loop_body_def consider_kmer_def Let_def)

lemma fold_loop_body_appends:
  "\<exists>app. snd (fold (loop_body H s r len k w a sc) ps st) = snd st @ app"
proof (induction ps arbitrary: st)
  case Nil
  show ?case by simp
next
  case (Cons p ps)
  obtain app1 where "snd (loop_body H s r len k w a sc p st) = snd st @ app1"
    using loop_body_appends by blast
  moreover obtain app2 where "snd (fold (loop_body H s r len k w a sc) ps (loop_body H s r len k w a sc p st)) =
      snd (loop_body H s r len k w a sc p st) @ app2"
    using Cons.IH by blast
  ultimately show ?case by simp
qed

lemma scan_split:
  assumes "0 \<le> n" and "n \<le> n'"
  shows "addMinimizers_scan H s r len k w a sc n' st =
     fold (loop_body H s r len k w a sc) [n..n' - 1] (addMinimizers_scan H s r len k w a sc n st)"
proof -
  have "[0..n' - 1] = [0..n - 1] @ [n..n' - 1]"
  proof (cases "n = n'")
    case True
    then show ?thesis by simp
  next
    case False
    with assms show ?thesis by (intro upto_split1) simp_all
  qed
  then show ?thesis
    by (simp add: addMinimizers_scan_def loop_positions_upto)
qed

lemma scan_index_prefix:
  assumes "0 \<le> n" and "n \<le> n'"
  shows "\<exists>app. snd (addMinimizers_scan H s r len k w a sc n' st) =
           snd (addMinimizers_scan H s r len k w a sc n st) @ app"
  unfolding scan_split [OF assms] by (rule fold_loop_body_appends)

section \<open>The minimizer of a window\<close>

text \<open>
  Claim C1, amended. Let \<open>i\<close> be a scanned position whose window id \<open>i - windowSize + 1\<close>
  is not negative, and let the k-mer at \<open>i\<close>, the last one of that window, be
  non-symmetric. Then after the iteration at \<open>i\<close> the index is not empty and its last
  record is the front of the deque: it has either just been appended with that window id
  (emitted) or the index is unchanged (suppressed as equal to the most recent record).
  Its hash is the minimum of the canonical hashes of the non-symmetric k-mers at the
  positions of the window, and it stays in the index until the end of the scan. A window
  whose last k-mer is symmetric gets neither an emission nor a suppression (see the
  counterexample).
\<close>

theorem window_minimum:
  assumes w: "1 \<le> windowSize" and c: "0 \<le> i - windowSize + 1"
    and inside: "i \<le> len - kmerSize"
    and ns: "nonsymmetric H seq seqRev len kmerSize alphabetSize i"
    and before: "addMinimizers_scan H seq seqRev len kmerSize windowSize alphabetSize seqCounter
                   i ([], minimizerIndex) = (Q0, idx0)"
    and after: "addMinimizers_scan H seq seqRev len kmerSize windowSize alphabetSize seqCounter
                   (i + 1) ([], minimizerIndex) = (Q, idx)"
  shows "Q \<noteq> [] \<and> idx \<noteq> [] \<and> last idx = fst (hd Q) \<and>
         (idx = idx0 \<or> idx = idx0 @ [last idx] \<and> wpos (last idx) = i - windowSize + 1) \<and>
         hash (last idx) =
           Min (set (window_hashes H seq seqRev len kmerSize windowSize alphabetSize
                      (i - windowSize + 1))) \<and>
         (\<exists>rest. snd (addMinimizers_scan H seq seqRev len kmerSize windowSize alphabetSize
                        seqCounter (len - kmerSize + 1) ([], minimizerIndex)) = idx @ rest)"
proof -
  let ?ns = "nonsymmetric H seq seqRev len kmerSize alphabetSize"
  let ?ch = "canonical_hash H seq seqRev len kmerSize alphabetSize"
  have i: "0 \<le> i" using w c by simp
  have step: "consider_kmer windowSize seqCounter i
      (hashFwd_at H seq kmerSize i) (hashBwd_at H seqRev len kmerSize alphabetSize i) (Q0, idx0) =
      (Q, idx)"
    using after by (simp add: scan_step [OF i] before loop_body_nonsym [OF ns])
  have idx: "Q \<noteq> [] \<and> idx \<noteq> [] \<and> last idx = fst (hd Q) \<and>
      (idx = idx0 \<or> idx = idx0 @ [last idx] \<and> wpos (last idx) = i - windowSize + 1)"
    using c step by (rule consider_kmer_index)
  have inv0: "key_inv ?ns ?ch windowSize i (keys Q0)"
    using scan_key_inv [OF i, of H seq seqRev len kmerSize alphabetSize windowSize seqCounter
        minimizerIndex] before by simp
  have "0 \<le> i + 1" using i by simp
  then have inv1: "key_inv ?ns ?ch windowSize (i + 1) (keys Q)"
    using scan_key_inv [of "i + 1" H seq seqRev len kmerSize alphabetSize windowSize seqCounter
        minimizerIndex] after by simp
  have keysQ: "keys Q = push_key windowSize i (?ch i) (keys Q0)"
    using keys_loop_body [of H seq seqRev len kmerSize windowSize alphabetSize seqCounter i
        "(Q0, idx0)"] ns after
    by (simp add: scan_step [OF i] before)
  have win: "\<forall>x \<in> set (keys Q). i - windowSize < snd x \<and> snd x \<le> i"
    unfolding keysQ
  proof (rule push_key_window [OF _ _ w])
    show "sorted_wrt (<) (map snd (keys Q0))"
      using key_inv_sorted [OF inv0] by simp
    show "\<forall>x \<in> set (keys Q0). snd x < i"
      using key_inv_elem [OF inv0] by blast
  qed
  have kne: "keys Q \<noteq> []" using idx by (simp add: keys_def)
  have "fst (hd (keys Q)) = Min (set (map ?ch (filter ?ns [i - windowSize + 1..i])))"
    using inv1 win kne c by (rule front_is_window_min)
  then have minh: "hash (last idx) =
      Min (set (window_hashes H seq seqRev len kmerSize windowSize alphabetSize
                 (i - windowSize + 1)))"
    using idx by (simp add: hd_keys window_hashes_def)
  have "i + 1 \<le> len - kmerSize + 1" using inside by simp
  then have "\<exists>rest. snd (addMinimizers_scan H seq seqRev len kmerSize windowSize alphabetSize
       seqCounter (len - kmerSize + 1) ([], minimizerIndex)) = idx @ rest"
    using scan_index_prefix [of "i + 1" "len - kmerSize + 1" H seq seqRev len kmerSize
        windowSize alphabetSize seqCounter "([], minimizerIndex)"] i after
    by auto
  with idx minh show ?thesis by blast
qed

lemma window_example_nonsymmetric:
  "nonsymmetric (sampleHash :: char list \<Rightarrow> 32 word) ''GATTACA'' ''TGTAATC'' 7 3 4 3"
  by code_simp

lemma window_example_before:
  "addMinimizers_scan (sampleHash :: char list \<Rightarrow> 32 word) ''GATTACA'' ''TGTAATC'' 7 3 2 4 0 3
     ([], []) =
   ([(\<lparr>hash = 64564, seqId = 0, wpos = 0, strand = REV\<rparr>, 1),
     (\<lparr>hash = 82804, seqId = 0, wpos = 0, strand = REV\<rparr>, 2)],
    [\<lparr>hash = 64564, seqId = 0, wpos = 0, strand = REV\<rparr>])"
  by code_simp

lemma window_example_after:
  "addMinimizers_scan (sampleHash :: char list \<Rightarrow> 32 word) ''GATTACA'' ''TGTAATC'' 7 3 2 4 0
     (3 + 1) ([], []) =
   ([(\<lparr>hash = 70900, seqId = 0, wpos = 2, strand = REV\<rparr>, 3)],
    [\<lparr>hash = 64564, seqId = 0, wpos = 0, strand = REV\<rparr>,
     \<lparr>hash = 70900, seqId = 0, wpos = 2, strand = REV\<rparr>])"
  by code_simp

theorem window_minimum_witness:
  "(1::int) \<le> 2 \<and> (0::int) \<le> 3 - 2 + 1 \<and> (3::int) \<le> 7 - 3 \<and>
   nonsymmetric (sampleHash :: char list \<Rightarrow> 32 word) ''GATTACA'' ''TGTAATC'' 7 3 4 3 \<and>
   (70900 :: 32 word) =
     Min (set (window_hashes sampleHash ''GATTACA'' ''TGTAATC'' 7 3 2 4 (3 - 2 + 1))) \<and>
   (\<exists>rest. snd (addMinimizers_scan (sampleHash :: char list \<Rightarrow> 32 word) ''GATTACA'' ''TGTAATC''
                  7 3 2 4 0 (7 - 3 + 1) ([], [])) =
      [\<lparr>hash = 64564, seqId = 0, wpos = 0, strand = REV\<rparr>,
       \<lparr>hash = 70900, seqId = 0, wpos = 2, strand = REV\<rparr>] @ rest)"
  using window_minimum [OF _ _ _ window_example_nonsymmetric window_example_before
      window_example_after] window_example_nonsymmetric
  by simp

text \<open>
  The claim as stated fails. In \<open>CAT\<close> with \<open>k = 2\<close> and \<open>w = 2\<close> the only window, window 0,
  is valid and holds the non-symmetric 2-mer \<open>CA\<close> at position 0; its last 2-mer \<open>AT\<close> is
  its own reverse complement, so the iteration at position 1 is skipped and the index is
  still empty after the whole scan: window 0 has produced neither an emission nor a
  suppression.
\<close>

theorem window_minimum_counterexample:
  "(1::int) \<le> 2 \<and> (0::int) \<le> 1 - 2 + 1 \<and> (1::int) \<le> 3 - 2 \<and>
   window_hashes (sampleHash :: char list \<Rightarrow> 32 word) ''CAT''
     (reverseComplement ''CAT'' ''...'' 3) 3 2 2 4 (1 - 2 + 1) = [2142] \<and>
   addMinimizers_scan (sampleHash :: char list \<Rightarrow> 32 word) ''CAT''
     (reverseComplement ''CAT'' ''...'' 3) 3 2 2 4 0 (1 + 1) ([], []) =
     ([(\<lparr>hash = 2142, seqId = 0, wpos = 0, strand = FWD\<rparr>, 0)], []) \<and>
   addMinimizers (sampleHash :: char list \<Rightarrow> 32 word) ''...'' [] ''CAT'' 3 2 2 4 0 = (''CAT'', [])"
  by code_simp

section \<open>Symmetric k-mers\<close>

lemma revcomp_window:
  assumes "i + k \<le> length xs"
  shows "take k (drop (length xs - i - k) (rev (map f xs))) = rev (map f (take k (drop i xs)))"
proof -
  have "drop (length xs - i - k) (rev (map f xs)) = rev (take (i + k) (map f xs))"
    using assms by (simp add: drop_rev)
  then have "take k (drop (length xs - i - k) (rev (map f xs))) =
      rev (drop i (take (i + k) (map f xs)))"
    using assms by (simp add: take_rev min_def)
  also have "drop i (take (i + k) (map f xs)) = map f (take k (drop i xs))"
    by (simp add: drop_take take_map drop_map)
  finally show ?thesis .
qed

lemma self_complementary_kmer_symmetric:
  assumes "0 \<le> i" and "0 \<le> kmerSize" and "i + kmerSize \<le> len" and "len = int (length seq)"
    and "length dest = length seq"
    and "rev (map complement_base (take (nat kmerSize) (drop (nat i) seq))) =
           take (nat kmerSize) (drop (nat i) seq)"
  shows "hashFwd_at H seq kmerSize i =
         hashBwd_at H (reverseComplement seq dest len) len kmerSize 4 i"
proof -
  have rc: "reverseComplement seq dest len = rev (map complement_base seq)"
    using assms(4,5) by (simp add: reverseComplement_eq)
  have n: "nat (len - i - kmerSize) = length seq - nat i - nat kmerSize"
    using assms(1-4) by simp
  have "nat i + nat kmerSize \<le> length seq"
    using assms(1-4) by simp
  then have "take (nat kmerSize) (drop (length seq - nat i - nat kmerSize)
        (rev (map complement_base seq))) =
      rev (map complement_base (take (nat kmerSize) (drop (nat i) seq)))"
    by (rule revcomp_window)
  then show ?thesis
    by (simp add: hashFwd_at_def hashBwd_at_def getHash_def rc n assms(6))
qed

text \<open>
  Claim C4. At a position whose forward hash equals its backward hash the loop body
  leaves the state as it is: no candidate is pushed, nothing is evicted from either end
  of the deque, and nothing is appended to the index; the scan is after this iteration
  where it was before it.
\<close>

theorem symmetric_position_skipped:
  assumes "hashFwd_at H seq kmerSize i = hashBwd_at H seqRev len kmerSize alphabetSize i"
  shows "loop_body H seq seqRev len kmerSize windowSize alphabetSize seqCounter i
           (Q, minimizerIndex) = (Q, minimizerIndex) \<and>
         (0 \<le> i \<longrightarrow>
            addMinimizers_scan H seq seqRev len kmerSize windowSize alphabetSize seqCounter
              (i + 1) st =
            addMinimizers_scan H seq seqRev len kmerSize windowSize alphabetSize seqCounter i st)"
  using assms by (simp add: loop_body_def scan_step)

lemma symmetric_kmer_example:
  "hashFwd_at (sampleHash :: char list \<Rightarrow> 32 word) ''TACGTA'' 4 1 =
     hashBwd_at sampleHash (reverseComplement ''TACGTA'' ''......'' 6) 6 4 4 1"
  by code_simp

theorem symmetric_position_skipped_witness:
  "hashFwd_at (sampleHash :: char list \<Rightarrow> 32 word) ''TACGTA'' 4 1 =
     hashBwd_at sampleHash (reverseComplement ''TACGTA'' ''......'' 6) 6 4 4 1 \<and>
   loop_body (sampleHash :: char list \<Rightarrow> 32 word) ''TACGTA''
       (reverseComplement ''TACGTA'' ''......'' 6) 6 4 2 4 0 1
       ([(\<lparr>hash = 5, seqId = 0, wpos = 0, strand = FWD\<rparr>, 0)], []) =
     ([(\<lparr>hash = 5, seqId = 0, wpos = 0, strand = FWD\<rparr>, 0)], []) \<and>
   addMinimizers_scan (sampleHash :: char list \<Rightarrow> 32 word) ''TACGTA''
       (reverseComplement ''TACGTA'' ''......'' 6) 6 4 2 4 0 (1 + 1) ([], []) =
   addMinimizers_scan (sampleHash :: char list \<Rightarrow> 32 word) ''TACGTA''
       (reverseComplement ''TACGTA'' ''......'' 6) 6 4 2 4 0 1 ([], [])"
  using symmetric_position_skipped [OF symmetric_kmer_example,
      of 2 0 "[(\<lparr>hash = 5, seqId = 0, wpos = 0, strand = FWD\<rparr>, 0)]" "[]" "([], [])"]
    symmetric_kmer_example
  by simp

section \<open>The window position of an emitted record\<close>

text \<open>
  Claim C3, amended. When an iteration appends a record, the window position
  \<open>i - windowSize + 1\<close> has been assigned to the candidate at the front of the deque
  itself, and the record appended is a copy of that front: after the iteration the front
  of the deque carries the window position and equals the last record of the index.
\<close>

theorem emission_sets_front_wpos:
  assumes "loop_body H seq seqRev len kmerSize windowSize alphabetSize seqCounter i
             (Q, minimizerIndex) = (Q', minimizerIndex')"
    and "minimizerIndex' \<noteq> minimizerIndex"
  shows "Q' \<noteq> [] \<and> minimizerIndex' = minimizerIndex @ [fst (hd Q')] \<and>
         wpos (fst (hd Q')) = i - windowSize + 1"
proof -
  have ns: "nonsymmetric H seq seqRev len kmerSize alphabetSize i"
    using assms by (auto simp: loop_body_def nonsymmetric_def)
  have step: "consider_kmer windowSize seqCounter i (hashFwd_at H seq kmerSize i)
      (hashBwd_at H seqRev len kmerSize alphabetSize i) (Q, minimizerIndex) =
      (Q', minimizerIndex')"
    using assms(1) by (simp add: loop_body_nonsym [OF ns])
  have cw: "0 \<le> i - windowSize + 1"
    using step assms(2) by (auto simp: consider_kmer_def Let_def split: if_splits)
  show ?thesis
    using consider_kmer_index [OF cw step] assms(2) by auto
qed

theorem emission_sets_front_wpos_witness:
  "loop_body (sampleHash :: char list \<Rightarrow> 32 word) ''GATTACA'' ''TGTAATC'' 7 3 2 4 0 3
     ([(\<lparr>hash = 64564, seqId = 0, wpos = 0, strand = REV\<rparr>, 1),
       (\<lparr>hash = 82804, seqId = 0, wpos = 0, strand = REV\<rparr>, 2)],
      [\<lparr>hash = 64564, seqId = 0, wpos = 0, strand = REV\<rparr>]) =
   ([(\<lparr>hash = 70900, seqId = 0, wpos = 2, strand = REV\<rparr>, 3)],
    [\<lparr>hash = 64564, seqId = 0, wpos = 0, strand = REV\<rparr>,
     \<lparr>hash = 70900, seqId = 0, wpos = 2, strand = REV\<rparr>]) \<and>
   wpos (fst (hd [(\<lparr>hash = 70900 :: 32 word, seqId = 0, wpos = 2, strand = REV\<rparr>, 3 :: int)])) =
     3 - 2 + 1"
proof -
  have run: "loop_body (sampleHash :: char list \<Rightarrow> 32 word) ''GATTACA'' ''TGTAATC'' 7 3 2 4 0 3
     ([(\<lparr>hash = 64564, seqId = 0, wpos = 0, strand = REV\<rparr>, 1),
       (\<lparr>hash = 82804, seqId = 0, wpos = 0, strand = REV\<rparr>, 2)],
      [\<lparr>hash = 64564, seqId = 0, wpos = 0, strand = REV\<rparr>]) =
   ([(\<lparr>hash = 70900, seqId = 0, wpos = 2, strand = REV\<rparr>, 3)],
    [\<lparr>hash = 64564, seqId = 0, wpos = 0, strand = REV\<rparr>,
     \<lparr>hash = 70900, seqId = 0, wpos = 2, strand = REV\<rparr>])"
    by code_simp
  show ?thesis
    using emission_sets_front_wpos [OF run] run by simp
qed

text \<open>
  The claim as stated fails: in \<open>GATTACA\<close> with \<open>k = 3\<close>, \<open>w = 2\<close> the iteration at
  position 3 emits for window 2, and afterwards the candidate stored at the front of the
  deque has window position 2, not the sentinel 0.
\<close>

theorem emission_sets_front_wpos_counterexample:
  "snd (addMinimizers_scan (sampleHash :: char list \<Rightarrow> 32 word) ''GATTACA''
          (reverseComplement ''GATTACA'' ''.......'' 7) 7 3 2 4 0 4 ([], [])) \<noteq>
   snd (addMinimizers_scan (sampleHash :: char list \<Rightarrow> 32 word) ''GATTACA''
          (reverseComplement ''GATTACA'' ''.......'' 7) 7 3 2 4 0 3 ([], [])) \<and>
   wpos (fst (hd (fst (addMinimizers_scan (sampleHash :: char list \<Rightarrow> 32 word) ''GATTACA''
          (reverseComplement ''GATTACA'' ''.......'' 7) 7 3 2 4 0 4 ([], []))))) = 2 \<and>
   wpos (fst (hd (fst (addMinimizers_scan (sampleHash :: char list \<Rightarrow> 32 word) ''GATTACA''
          (reverseComplement ''GATTACA'' ''.......'' 7) 7 3 2 4 0 4 ([], []))))) \<noteq> 0"
  by code_simp

section \<open>Records appended by one call\<close>

lemma loop_body_index:
  "snd (loop_body H s r len k w a sc i st) = snd st \<or>
   (\<exists>m. snd (loop_body H s r len k w a sc i st) = snd st @ [m] \<and> wpos m = i - w + 1)"
proof (cases "nonsymmetric H s r len k a i \<and> 0 \<le> i - w + 1")
  case True
  obtain Q' idx' where st': "consider_kmer w sc i (hashFwd_at H s k i) (hashBwd_at H r len k a i)
      (fst st, snd st) = (Q', idx')"
    by (cases "consider_kmer w sc i (hashFwd_at H s k i) (hashBwd_at H r len k a i) (fst st, snd st)")
  have "idx' = snd st \<or> idx' = snd st @ [last idx'] \<and> wpos (last idx') = i - w + 1"
    using consider_kmer_index [OF _ st'] True by blast
  then show ?thesis
    using True st' by (auto simp: loop_body_nonsym)
next
  case False
  then have "snd (loop_body H s r len k w a sc i st) = snd st"
    by (cases "nonsymmetric H s r len k a i")
       (simp_all add: loop_body_sym below_window_index_unchanged)
  then show ?thesis by simp
qed

lemma scan_wpos_increasing:
  assumes "0 \<le> n"
  shows "\<exists>app. snd (addMinimizers_scan H s r len k w a sc n ([], idx0)) = idx0 @ app \<and>
           sorted_wrt (\<lambda>x y. wpos x < wpos y) app \<and> (\<forall>m \<in> set app. wpos m \<le> n - w)"
  using assms
proof (induction n rule: int_ge_induct)
  case base
  show ?case by (simp add: scan_nonpos)
next
  case (step n)
  let ?st = "addMinimizers_scan H s r len k w a sc n ([], idx0)"
  obtain app where app: "snd ?st = idx0 @ app" "sorted_wrt (\<lambda>x y. wpos x < wpos y) app"
      "\<forall>m \<in> set app. wpos m \<le> n - w"
    using step.IH by blast
  from loop_body_index [of H s r len k w a sc n ?st]
  show ?case
  proof
    assume "snd (loop_body H s r len k w a sc n ?st) = snd ?st"
    then have "snd (addMinimizers_scan H s r len k w a sc (n + 1) ([], idx0)) = idx0 @ app"
      using app(1) by (simp add: scan_step [OF step.hyps])
    moreover have "\<forall>m \<in> set app. wpos m \<le> n + 1 - w"
      using app(3) by force
    ultimately show ?thesis using app(2) by blast
  next
    assume "\<exists>m. snd (loop_body H s r len k w a sc n ?st) = snd ?st @ [m] \<and> wpos m = n - w + 1"
    then obtain m where m: "snd (loop_body H s r len k w a sc n ?st) = snd ?st @ [m]"
        "wpos m = n - w + 1"
      by blast
    have "snd (addMinimizers_scan H s r len k w a sc (n + 1) ([], idx0)) = idx0 @ (app @ [m])"
      using m(1) app(1) by (simp add: scan_step [OF step.hyps])
    moreover have "sorted_wrt (\<lambda>x y. wpos x < wpos y) (app @ [m])"
      using app(2,3) m(2) by (force simp: sorted_wrt_append)
    moreover have "\<forall>x \<in> set (app @ [m]). wpos x \<le> n + 1 - w"
      using app(3) m(2) by force
    ultimately show ?thesis by blast
  qed
qed

lemma increasing_wpos_successively:
  "sorted_wrt (\<lambda>x y. wpos x < wpos y) app \<Longrightarrow> successively (\<lambda>x y. x \<noteq> y) app \<and> distinct app"
proof (induction app)
  case Nil
  show ?case by simp
next
  case (Cons x app)
  then show ?case
    by (cases app) auto
qed

lemma pop_front_suffix: "\<exists>A. Q = A @ pop_front_loop Q b"
proof (induction Q)
  case Nil
  show ?case by simp
next
  case (Cons c Q)
  then obtain A where A: "Q = A @ pop_front_loop Q b" by blast
  show ?case
  proof (cases "snd c \<le> b")
    case True
    then have "c # Q = (c # A) @ pop_front_loop (c # Q) b"
      using A by simp
    then show ?thesis by blast
  next
    case False
    then have "c # Q = [] @ pop_front_loop (c # Q) b" by simp
    then show ?thesis by blast
  qed
qed

lemma pop_back_prefix: "\<exists>R. Q = pop_back_loop Q c @ R"
proof (induction Q rule: rev_induct)
  case Nil
  show ?case by (simp add: pop_back_loop_Nil)
next
  case (snoc x Q)
  then obtain R where R: "Q = pop_back_loop Q c @ R" by blast
  show ?case
  proof (cases "c \<le> hash (fst x)")
    case True
    then have "Q @ [x] = pop_back_loop (Q @ [x]) c @ (R @ [x])"
      using R by (simp add: pop_back_loop_snoc)
    then show ?thesis by blast
  next
    case False
    then have "Q @ [x] = pop_back_loop (Q @ [x]) c @ []"
      by (simp add: pop_back_loop_snoc)
    then show ?thesis by blast
  qed
qed

lemma hd_set_front_wpos: "Q \<noteq> [] \<Longrightarrow> snd (hd (set_front_wpos Q c)) = snd (hd Q)"
  by (cases Q) auto

lemma front_persist_step:
  assumes sorted: "sorted_wrt (<) (map snd Q)" and below: "\<forall>x \<in> set Q. snd x < i"
    and Qne: "Q \<noteq> []" and last: "idx \<noteq> []" "last idx = fst (hd Q)"
    and cw: "0 \<le> i - w + 1"
    and step: "consider_kmer w sc i hf hb (Q, idx) = (Q', idx')"
  shows "snd (hd Q) \<le> snd (hd Q') \<and> (snd (hd Q') = snd (hd Q) \<longrightarrow> idx' = idx \<and> hd Q' = hd Q)"
proof -
  define new where "new = (\<lparr>hash = min hf hb, seqId = sc, wpos = 0,
      strand = (if hf < hb then FWD else REV)\<rparr>, i)"
  define K where "K = pop_back_loop (pop_front_loop Q (i - w)) (min hf hb)"
  obtain A where A: "Q = A @ pop_front_loop Q (i - w)"
    using pop_front_suffix by blast
  obtain R where R: "pop_front_loop Q (i - w) = K @ R"
    unfolding K_def using pop_back_prefix by blast
  have Q: "Q = A @ K @ R" using A R by simp
  have "consider_kmer w sc i hf hb (Q, idx) =
      (if idx = [] \<or> last idx \<noteq> fst (hd (K @ [new]))
       then (set_front_wpos (K @ [new]) (i - w + 1),
             idx @ [fst (hd (set_front_wpos (K @ [new]) (i - w + 1)))])
       else (K @ [new], idx))"
    unfolding consider_kmer_def Let_def K_def new_def fst_conv snd_conv
    using cw by (simp only: if_True)
  then have res: "(Q', idx') =
      (if idx = [] \<or> last idx \<noteq> fst (hd (K @ [new]))
       then (set_front_wpos (K @ [new]) (i - w + 1),
             idx @ [fst (hd (set_front_wpos (K @ [new]) (i - w + 1)))])
       else (K @ [new], idx))"
    using step by simp
  have pos: "snd (hd Q') = snd (hd (K @ [new]))"
    using res by (auto simp: hd_set_front_wpos split: if_splits)
  have hdQ: "snd (hd Q) < i" using below Qne by simp
  show ?thesis
  proof (cases "K = []")
    case True
    then have "snd (hd Q') = i" using pos by (simp add: new_def)
    with hdQ show ?thesis by simp
  next
    case False
    then have hdK: "hd (K @ [new]) = hd K" by simp
    show ?thesis
    proof (cases "A = []")
      case True
      then have same: "hd K = hd Q" using Q False by simp
      then have "Q' = K @ [new]" "idx' = idx"
        using res last hdK by auto
      then show ?thesis using hdK same by simp
    next
      case A: False
      have "sorted_wrt (<) (map snd A @ map snd (K @ R))"
        using sorted by (subst (asm) Q) simp
      then have cross: "\<forall>x \<in> set (map snd A). \<forall>y \<in> set (map snd (K @ R)). x < y"
        unfolding sorted_wrt_append by blast
      have "snd (hd K) \<in> set (map snd (K @ R))" using False by simp
      moreover have "snd (hd A) \<in> set (map snd A)" using A by simp
      ultimately have "snd (hd A) < snd (hd K)"
        using cross by blast
      moreover have "hd Q = hd A" using A by (subst Q) simp
      ultimately show ?thesis using pos hdK by simp
    qed
  qed
qed

lemma map_snd_keys: "map snd (keys Q) = map snd Q"
  by (simp add: keys_def comp_def)

lemma keys_below:
  "\<forall>x \<in> set (keys Q). snd x < n \<Longrightarrow> \<forall>x \<in> set Q. snd x < (n::int)"
  by (auto simp: keys_def)

lemma front_persist:
  assumes i: "0 \<le> i" and cw: "0 \<le> i - w + 1" and ns: "nonsymmetric H s r len k a i"
    and n: "i + 1 \<le> n"
  shows "fst (addMinimizers_scan H s r len k w a sc n ([], idx0)) \<noteq> [] \<and>
         snd (addMinimizers_scan H s r len k w a sc n ([], idx0)) \<noteq> [] \<and>
         last (snd (addMinimizers_scan H s r len k w a sc n ([], idx0))) =
           fst (hd (fst (addMinimizers_scan H s r len k w a sc n ([], idx0)))) \<and>
         snd (hd (fst (addMinimizers_scan H s r len k w a sc (i + 1) ([], idx0)))) \<le>
           snd (hd (fst (addMinimizers_scan H s r len k w a sc n ([], idx0)))) \<and>
         (snd (hd (fst (addMinimizers_scan H s r len k w a sc n ([], idx0)))) =
            snd (hd (fst (addMinimizers_scan H s r len k w a sc (i + 1) ([], idx0)))) \<longrightarrow>
          snd (addMinimizers_scan H s r len k w a sc n ([], idx0)) =
            snd (addMinimizers_scan H s r len k w a sc (i + 1) ([], idx0)) \<and>
          hd (fst (addMinimizers_scan H s r len k w a sc n ([], idx0))) =
            hd (fst (addMinimizers_scan H s r len k w a sc (i + 1) ([], idx0))))"
  using n
proof (induction n rule: int_ge_induct)
  case base
  obtain Q0 idx0' where b: "addMinimizers_scan H s r len k w a sc i ([], idx0) = (Q0, idx0')"
    by (cases "addMinimizers_scan H s r len k w a sc i ([], idx0)")
  obtain Q1 idx1 where a: "addMinimizers_scan H s r len k w a sc (i + 1) ([], idx0) = (Q1, idx1)"
    by (cases "addMinimizers_scan H s r len k w a sc (i + 1) ([], idx0)")
  have "consider_kmer w sc i (hashFwd_at H s k i) (hashBwd_at H r len k a i) (Q0, idx0') = (Q1, idx1)"
    using a by (simp add: scan_step [OF i] b loop_body_nonsym [OF ns])
  from consider_kmer_index [OF cw this] show ?case
    by (simp add: a)
next
  case (step n)
  let ?S1 = "addMinimizers_scan H s r len k w a sc (i + 1) ([], idx0)"
  obtain Q idx where S: "addMinimizers_scan H s r len k w a sc n ([], idx0) = (Q, idx)"
    by (cases "addMinimizers_scan H s r len k w a sc n ([], idx0)")
  have n0: "0 \<le> n" using step.hyps i by simp
  have IH: "Q \<noteq> []" "idx \<noteq> []" "last idx = fst (hd Q)" "snd (hd (fst ?S1)) \<le> snd (hd Q)"
    "snd (hd Q) = snd (hd (fst ?S1)) \<longrightarrow> idx = snd ?S1 \<and> hd Q = hd (fst ?S1)"
    using step.IH by (simp_all add: S)
  show ?case
  proof (cases "nonsymmetric H s r len k a n")
    case False
    then have "addMinimizers_scan H s r len k w a sc (n + 1) ([], idx0) = (Q, idx)"
      by (simp add: scan_step [OF n0] S loop_body_sym)
    with IH show ?thesis by simp
  next
    case True
    obtain Q' idx' where S': "addMinimizers_scan H s r len k w a sc (n + 1) ([], idx0) = (Q', idx')"
      by (cases "addMinimizers_scan H s r len k w a sc (n + 1) ([], idx0)")
    have st: "consider_kmer w sc n (hashFwd_at H s k n) (hashBwd_at H r len k a n) (Q, idx) = (Q', idx')"
      using S' by (simp add: scan_step [OF n0] S loop_body_nonsym [OF True])
    have inv: "key_inv (nonsymmetric H s r len k a) (canonical_hash H s r len k a) w n (keys Q)"
      using scan_key_inv [OF n0, of H s r len k a w sc idx0] S by simp
    have sorted: "sorted_wrt (<) (map snd Q)"
      using key_inv_sorted [OF inv] by (simp add: map_snd_keys)
    have below: "\<forall>x \<in> set Q. snd x < n"
      using key_inv_elem [OF inv] by (intro keys_below) blast
    have cwn: "0 \<le> n - w + 1" using cw step.hyps by simp
    have fp: "snd (hd Q) \<le> snd (hd Q') \<and>
        (snd (hd Q') = snd (hd Q) \<longrightarrow> idx' = idx \<and> hd Q' = hd Q)"
      using sorted below IH(1,2,3) cwn st by (rule front_persist_step)
    have ci: "Q' \<noteq> [] \<and> idx' \<noteq> [] \<and> last idx' = fst (hd Q')"
      using consider_kmer_index [OF cwn st] by blast
    have le: "snd (hd (fst ?S1)) \<le> snd (hd Q')"
      using fp IH(4) by linarith
    have same: "idx' = snd ?S1 \<and> hd Q' = hd (fst ?S1)"
      if eq: "snd (hd Q') = snd (hd (fst ?S1))"
    proof -
      have "snd (hd Q') = snd (hd Q)" using eq fp IH(4) by linarith
      moreover from this have "snd (hd Q) = snd (hd (fst ?S1))" using eq by simp
      ultimately show ?thesis using fp IH(5) by simp
    qed
    show ?thesis
      unfolding S' fst_conv snd_conv using ci le same by blast
  qed
qed

lemma addMinimizers_wpos_increasing:
  "\<exists>app. snd (addMinimizers H seqRev0 minimizerIndex seq len k w a sc) = minimizerIndex @ app \<and>
         sorted_wrt (\<lambda>x y. wpos x < wpos y) app"
proof (cases "0 \<le> len - k + 1")
  case True
  show ?thesis
    using scan_wpos_increasing [OF True]
    unfolding addMinimizers_def Let_def snd_conv by blast
next
  case False
  then show ?thesis
    by (simp add: addMinimizers_def Let_def scan_nonpos)
qed

lemma scan_emission:
  assumes "0 \<le> i" and "0 \<le> i - w + 1" and "nonsymmetric H s r len k a i"
  shows "snd (addMinimizers_scan H s r len k w a sc (i + 1) st) =
           snd (addMinimizers_scan H s r len k w a sc i st) \<or>
         snd (addMinimizers_scan H s r len k w a sc (i + 1) st) =
           snd (addMinimizers_scan H s r len k w a sc i st) @
             [fst (hd (fst (addMinimizers_scan H s r len k w a sc (i + 1) st)))] \<and>
         wpos (fst (hd (fst (addMinimizers_scan H s r len k w a sc (i + 1) st)))) = i - w + 1"
proof -
  obtain Q0 idx0 where b: "addMinimizers_scan H s r len k w a sc i st = (Q0, idx0)"
    by (cases "addMinimizers_scan H s r len k w a sc i st")
  obtain Q1 idx1 where a: "addMinimizers_scan H s r len k w a sc (i + 1) st = (Q1, idx1)"
    by (cases "addMinimizers_scan H s r len k w a sc (i + 1) st")
  have "consider_kmer w sc i (hashFwd_at H s k i) (hashBwd_at H r len k a i) (Q0, idx0) = (Q1, idx1)"
    using a by (simp add: scan_step [OF assms(1)] b loop_body_nonsym [OF assms(3)])
  from consider_kmer_index [OF assms(2) this] show ?thesis
    unfolding a b fst_conv snd_conv by metis
qed

text \<open>
  Claim C2, amended. Among the records one call appends the window positions strictly
  increase, so no two consecutive records (indeed no two records) are equal in all four
  fields. A candidate that stays at the front of the deque over several windows is
  emitted at most once, and only at the first window at which an iteration examines it
  at the front: the iteration at a non-symmetric position \<open>i\<close> with a valid window either
  appends nothing or appends the front of the deque with the window position
  \<open>i - windowSize + 1\<close>; and if after the iterations up to \<open>n\<close> the front still has the
  origin position it had after the iteration at \<open>i\<close>, the index has not grown in between.
\<close>

theorem appended_records_differ:
  assumes "0 \<le> i" and "0 \<le> i - windowSize + 1"
    and "nonsymmetric H seq seqRev len kmerSize alphabetSize i" and "i + 1 \<le> n"
    and "snd (hd (fst (addMinimizers_scan H seq seqRev len kmerSize windowSize alphabetSize
                        seqCounter n ([], idx0)))) =
         snd (hd (fst (addMinimizers_scan H seq seqRev len kmerSize windowSize alphabetSize
                        seqCounter (i + 1) ([], idx0))))"
  shows "(\<exists>app. snd (addMinimizers H seqRev0 minimizerIndex seq0 len kmerSize windowSize
                      alphabetSize seqCounter) = minimizerIndex @ app \<and>
            sorted_wrt (\<lambda>x y. wpos x < wpos y) app \<and>
            successively (\<lambda>x y. x \<noteq> y) app \<and> distinct app) \<and>
         (snd (addMinimizers_scan H seq seqRev len kmerSize windowSize alphabetSize seqCounter
                 (i + 1) ([], idx0)) =
            snd (addMinimizers_scan H seq seqRev len kmerSize windowSize alphabetSize seqCounter
                   i ([], idx0)) \<or>
          snd (addMinimizers_scan H seq seqRev len kmerSize windowSize alphabetSize seqCounter
                 (i + 1) ([], idx0)) =
            snd (addMinimizers_scan H seq seqRev len kmerSize windowSize alphabetSize seqCounter
                   i ([], idx0)) @
              [fst (hd (fst (addMinimizers_scan H seq seqRev len kmerSize windowSize alphabetSize
                               seqCounter (i + 1) ([], idx0))))] \<and>
          wpos (fst (hd (fst (addMinimizers_scan H seq seqRev len kmerSize windowSize alphabetSize
                                seqCounter (i + 1) ([], idx0))))) = i - windowSize + 1) \<and>
         snd (addMinimizers_scan H seq seqRev len kmerSize windowSize alphabetSize seqCounter n
                ([], idx0)) =
         snd (addMinimizers_scan H seq seqRev len kmerSize windowSize alphabetSize seqCounter
                (i + 1) ([], idx0)) \<and>
         hd (fst (addMinimizers_scan H seq seqRev len kmerSize windowSize alphabetSize seqCounter n
                ([], idx0))) =
         hd (fst (addMinimizers_scan H seq seqRev len kmerSize windowSize alphabetSize seqCounter
                (i + 1) ([], idx0)))"
proof -
  obtain app where app: "snd (addMinimizers H seqRev0 minimizerIndex seq0 len kmerSize windowSize
      alphabetSize seqCounter) = minimizerIndex @ app" "sorted_wrt (\<lambda>x y. wpos x < wpos y) app"
    using addMinimizers_wpos_increasing by blast
  have "successively (\<lambda>x y. x \<noteq> y) app \<and> distinct app"
    using app(2) by (rule increasing_wpos_successively)
  with app have first: "\<exists>app. snd (addMinimizers H seqRev0 minimizerIndex seq0 len kmerSize
      windowSize alphabetSize seqCounter) = minimizerIndex @ app \<and>
      sorted_wrt (\<lambda>x y. wpos x < wpos y) app \<and>
      successively (\<lambda>x y. x \<noteq> y) app \<and> distinct app"
    by blast
  note emit = scan_emission [OF assms(1-3), of seqCounter "([], idx0)"]
  note keep = front_persist [OF assms(1-4), of seqCounter idx0]
  show ?thesis
    using first emit keep assms(5) by blast
qed

lemma persist_example_nonsymmetric:
  "nonsymmetric (sampleHash :: char list \<Rightarrow> 32 word) ''GATTACA'' ''TGTAATC'' 7 3 4 1"
  by code_simp

lemma persist_example_first:
  "addMinimizers_scan (sampleHash :: char list \<Rightarrow> 32 word) ''GATTACA'' ''TGTAATC'' 7 3 2 4 0
     2 ([], []) =
   ([(\<lparr>hash = 64564, seqId = 0, wpos = 0, strand = REV\<rparr>, 1)],
    [\<lparr>hash = 64564, seqId = 0, wpos = 0, strand = REV\<rparr>])"
  by code_simp

theorem appended_records_differ_witness:
  "(0::int) \<le> 1 \<and> (0::int) \<le> 1 - 2 + 1 \<and> (1::int) + 1 \<le> 3 \<and>
   nonsymmetric (sampleHash :: char list \<Rightarrow> 32 word) ''GATTACA'' ''TGTAATC'' 7 3 4 1 \<and>
   snd (hd (fst (addMinimizers_scan (sampleHash :: char list \<Rightarrow> 32 word) ''GATTACA'' ''TGTAATC''
                   7 3 2 4 0 3 ([], [])))) = 1 \<and>
   snd (addMinimizers_scan (sampleHash :: char list \<Rightarrow> 32 word) ''GATTACA'' ''TGTAATC''
          7 3 2 4 0 3 ([], [])) = [\<lparr>hash = 64564, seqId = 0, wpos = 0, strand = REV\<rparr>] \<and>
   (\<exists>app. snd (addMinimizers (sampleHash :: char list \<Rightarrow> 32 word) ''.......'' [] ''gattaca''
                 7 3 2 4 0) = [] @ app \<and>
      sorted_wrt (\<lambda>x y. wpos x < wpos y) app \<and> successively (\<lambda>x y. x \<noteq> y) app)"
proof -
  have front: "snd (hd (fst (addMinimizers_scan (sampleHash :: char list \<Rightarrow> 32 word) ''GATTACA''
      ''TGTAATC'' 7 3 2 4 0 3 ([], [])))) =
      snd (hd (fst (addMinimizers_scan (sampleHash :: char list \<Rightarrow> 32 word) ''GATTACA''
      ''TGTAATC'' 7 3 2 4 0 (1 + 1) ([], []))))"
    by code_simp
  show ?thesis
    using appended_records_differ [OF _ _ persist_example_nonsymmetric _ front,
        of "''.......''" "[]" "''gattaca''"]
      persist_example_nonsymmetric front
    by (simp add: persist_example_first)
qed

text \<open>
  The claim as stated fails. \<open>CAAA\<close> with \<open>k = 1\<close>, \<open>w = 1\<close> gives four records; the
  second and the third (and the fourth) have the same hash, sequence id and strand and
  differ in the window position only: the 1-mer \<open>A\<close> enters the deque anew at each
  position, with the window position 0 of a fresh candidate, and so differs from the
  last record of the index.
\<close>

theorem appended_records_differ_counterexample:
  "snd (addMinimizers (sampleHash :: char list \<Rightarrow> 32 word) ''....'' [] ''CAAA'' 4 1 1 4 0) =
     [\<lparr>hash = 67, seqId = 0, wpos = 0, strand = FWD\<rparr>,
      \<lparr>hash = 65, seqId = 0, wpos = 1, strand = FWD\<rparr>,
      \<lparr>hash = 65, seqId = 0, wpos = 2, strand = FWD\<rparr>,
      \<lparr>hash = 65, seqId = 0, wpos = 3, strand = FWD\<rparr>] \<and>
   hash (snd (addMinimizers (sampleHash :: char list \<Rightarrow> 32 word) ''....'' [] ''CAAA'' 4 1 1 4 0) ! 1) =
   hash (snd (addMinimizers (sampleHash :: char list \<Rightarrow> 32 word) ''....'' [] ''CAAA'' 4 1 1 4 0) ! 2) \<and>
   seqId (snd (addMinimizers (sampleHash :: char list \<Rightarrow> 32 word) ''....'' [] ''CAAA'' 4 1 1 4 0) ! 1) =
   seqId (snd (addMinimizers (sampleHash :: char list \<Rightarrow> 32 word) ''....'' [] ''CAAA'' 4 1 1 4 0) ! 2) \<and>
   strand (snd (addMinimizers (sampleHash :: char list \<Rightarrow> 32 word) ''....'' [] ''CAAA'' 4 1 1 4 0) ! 1) =
   strand (snd (addMinimizers (sampleHash :: char list \<Rightarrow> 32 word) ''....'' [] ''CAAA'' 4 1 1 4 0) ! 2)"
  by code_simp

section \<open>The positions scanned\<close>







section \<open>Case of the input\<close>

lemma upper_byte_lower:
  assumes "(96::nat) < of_char x" and "of_char x < (123::nat)" and "of_char y + (32::nat) = of_char x"
  shows "upper_byte x = y \<and> upper_byte y = y"
proof -
  have "of_char x - (32::nat) = of_char y" using assms(3) by simp
  then have "upper_byte x = y" using assms(1,2) by (simp add: upper_byte_def)
  moreover have "\<not> (96::nat) < of_char y" using assms(2,3) by simp
  then have "upper_byte y = y" by (simp add: upper_byte_def)
  ultimately show ?thesis by simp
qed

lemma upper_byte_same: "same_up_to_case x y \<Longrightarrow> upper_byte x = upper_byte y"
  unfolding same_up_to_case_def using upper_byte_lower [of x y] upper_byte_lower [of y x]
  by auto

lemma map_upper_byte_same:
  "list_all2 same_up_to_case xs ys \<Longrightarrow> map upper_byte xs = map upper_byte ys"
  by (induction rule: list_all2_induct) (simp_all add: upper_byte_same)

text \<open>
  Claim C7. Two buffers of the same length \<open>len\<close> that differ only in the case of letters
  give the same result of \<open>addMinimizers\<close> for the same \<open>k\<close>, \<open>w\<close>, alphabet size and
  sequence id: the same records are appended to the index (and both buffers are left in
  the same upper-case form), whatever the fresh reverse-complement buffers held.
\<close>

theorem case_insensitive:
  assumes "list_all2 same_up_to_case seq1 seq2"
    and "len = int (length seq1)"
    and "length rev1 = length seq1" and "length rev2 = length seq1"
  shows "addMinimizers H rev1 minimizerIndex seq1 len kmerSize windowSize alphabetSize seqCounter =
         addMinimizers H rev2 minimizerIndex seq2 len kmerSize windowSize alphabetSize seqCounter"
proof -
  have l2: "length seq2 = length seq1"
    using assms(1) by (simp add: list_all2_lengthD)
  have up1: "makeUpperCase seq1 len = map upper_byte seq1"
    using assms(2) by (simp add: makeUpperCase_eq)
  have up2: "makeUpperCase seq2 len = map upper_byte seq2"
    using assms(2) l2 by (simp add: makeUpperCase_eq)
  have up: "makeUpperCase seq1 len = makeUpperCase seq2 len"
    using map_upper_byte_same [OF assms(1)] up1 up2 by simp
  have rc1: "reverseComplement (makeUpperCase seq2 len) rev1 len =
      rev (map complement_base (makeUpperCase seq2 len))"
    unfolding up2 using assms(2,3) l2 by (intro reverseComplement_eq) simp_all
  have rc2: "reverseComplement (makeUpperCase seq2 len) rev2 len =
      rev (map complement_base (makeUpperCase seq2 len))"
    unfolding up2 using assms(2,4) l2 by (intro reverseComplement_eq) simp_all
  show ?thesis
  proof (cases "alphabetSize = 4")
    case True
    then show ?thesis
      by (simp add: addMinimizers_def Let_def up rc1 rc2)
  next
    case False
    have ind: "\<And>r. loop_body H (makeUpperCase seq2 len) r len kmerSize windowSize alphabetSize
        seqCounter = loop_body H (makeUpperCase seq2 len) rev2 len kmerSize windowSize
        alphabetSize seqCounter"
      using False by (intro ext) (simp add: loop_body_def hashBwd_at_def)
    show ?thesis
      using False by (simp add: addMinimizers_def Let_def up addMinimizers_scan_def ind [of rev1])
  qed
qed

theorem case_insensitive_witness:
  "list_all2 same_up_to_case ''acgt'' ''ACGT'' \<and>
   addMinimizers (sampleHash :: char list \<Rightarrow> 32 word) ''....'' [] ''acgt'' 4 2 1 4 0 =
   addMinimizers sampleHash ''----'' [] ''ACGT'' 4 2 1 4 0 \<and>
   snd (addMinimizers (sampleHash :: char list \<Rightarrow> 32 word) ''----'' [] ''ACGT'' 4 2 1 4 0) =
     [\<lparr>hash = 2082, seqId = 0, wpos = 0, strand = FWD\<rparr>,
      \<lparr>hash = 2082, seqId = 0, wpos = 2, strand = REV\<rparr>]"
proof -
  have same: "list_all2 same_up_to_case ''acgt'' ''ACGT''"
    by (simp add: same_up_to_case_def)
  have run: "snd (addMinimizers (sampleHash :: char list \<Rightarrow> 32 word) ''----'' [] ''ACGT'' 4 2 1 4 0) =
     [\<lparr>hash = 2082, seqId = 0, wpos = 0, strand = FWD\<rparr>,
      \<lparr>hash = 2082, seqId = 0, wpos = 2, strand = REV\<rparr>]"
    by code_simp
  show ?thesis
    using case_insensitive [OF same, of 4 "''....''" "''----''" "sampleHash :: char list \<Rightarrow> 32 word"
        "[]" 2 1 4 0] same run
    by simp
qed

section \<open>Protein mode\<close>

lemma protein_hashBwd: "a \<noteq> 4 \<Longrightarrow> hashBwd_at H r len k a i = - 1"
  by (simp add: hashBwd_at_def)

lemma set_pop_front: "set (pop_front_loop Q b) \<subseteq> set Q"
proof -
  obtain A where "Q = A @ pop_front_loop Q b" using pop_front_suffix by blast
  then have "set Q = set A \<union> set (pop_front_loop Q b)" by (metis set_append)
  then show ?thesis by blast
qed

lemma set_pop_back: "set (pop_back_loop Q c) \<subseteq> set Q"
proof -
  obtain R where "Q = pop_back_loop Q c @ R" using pop_back_prefix by blast
  then have "set Q = set (pop_back_loop Q c) \<union> set R" by (metis set_append)
  then show ?thesis by blast
qed

lemma all_fwd_set_front_wpos:
  "\<forall>x \<in> set Q. strand (fst x) = FWD \<Longrightarrow>
   \<forall>x \<in> set (set_front_wpos Q c). strand (fst x) = FWD"
  by (cases Q) auto

lemma consider_kmer_fwd:
  assumes Q: "\<forall>x \<in> set Q. strand (fst x) = FWD" and lt: "hf < hb"
  shows "(\<forall>x \<in> set (fst (consider_kmer w sc i hf hb (Q, idx))). strand (fst x) = FWD) \<and>
         (\<exists>app. snd (consider_kmer w sc i hf hb (Q, idx)) = idx @ app \<and>
                (\<forall>m \<in> set app. strand m = FWD))"
proof -
  define Q3 where "Q3 = pop_back_loop (pop_front_loop Q (i - w)) (min hf hb) @
     [(\<lparr>hash = min hf hb, seqId = sc, wpos = 0, strand = (if hf < hb then FWD else REV)\<rparr>, i)]"
  have "set (pop_back_loop (pop_front_loop Q (i - w)) (min hf hb)) \<subseteq> set Q"
    using set_pop_back set_pop_front by blast
  then have Q3: "\<forall>x \<in> set Q3. strand (fst x) = FWD"
    using Q lt by (auto simp: Q3_def)
  have Q3ne: "Q3 \<noteq> []" by (simp add: Q3_def)
  have Q4: "\<forall>x \<in> set (set_front_wpos Q3 (i - w + 1)). strand (fst x) = FWD"
    using Q3 by (rule all_fwd_set_front_wpos)
  have "set_front_wpos Q3 (i - w + 1) \<noteq> []"
    using Q3ne by (cases Q3) auto
  then have hd4: "strand (fst (hd (set_front_wpos Q3 (i - w + 1)))) = FWD"
    using Q4 by simp
  have res: "consider_kmer w sc i hf hb (Q, idx) =
      (if 0 \<le> i - w + 1
       then if idx = [] \<or> last idx \<noteq> fst (hd Q3)
            then (set_front_wpos Q3 (i - w + 1), idx @ [fst (hd (set_front_wpos Q3 (i - w + 1)))])
            else (Q3, idx)
       else (Q3, idx))"
    unfolding consider_kmer_def Let_def Q3_def fst_conv snd_conv by (rule refl)
  show ?thesis
    unfolding res using Q3 Q4 hd4 by auto
qed

lemma protein_step:
  assumes a: "a \<noteq> 4" and Q: "\<forall>x \<in> set (fst st). strand (fst x) = FWD"
  shows "(\<forall>x \<in> set (fst (loop_body H s r len k w a sc i st)). strand (fst x) = FWD) \<and>
         (\<exists>app. snd (loop_body H s r len k w a sc i st) = snd st @ app \<and>
                (\<forall>m \<in> set app. strand m = FWD))"
proof (cases "nonsymmetric H s r len k a i")
  case False
  then show ?thesis using Q by (simp add: loop_body_sym)
next
  case True
  then have "hashFwd_at H s k i \<noteq> - 1"
    using a by (simp add: nonsymmetric_def hashBwd_at_def)
  then have lt: "hashFwd_at H s k i < hashBwd_at H r len k a i"
    using a by (simp add: hashBwd_at_def less_le)
  show ?thesis
    using consider_kmer_fwd [of "fst st" "hashFwd_at H s k i" "hashBwd_at H r len k a i" w sc i "snd st",
        OF Q lt]
    by (simp add: loop_body_nonsym [OF True])
qed

lemma protein_fold:
  assumes a: "a \<noteq> 4"
  shows "\<forall>x \<in> set (fst st). strand (fst x) = FWD \<Longrightarrow>
         \<exists>app. snd (fold (loop_body H s r len k w a sc) ps st) = snd st @ app \<and>
               (\<forall>m \<in> set app. strand m = FWD)"
proof (induction ps arbitrary: st)
  case Nil
  show ?case by simp
next
  case (Cons p ps)
  let ?st = "loop_body H s r len k w a sc p st"
  have q: "\<forall>x \<in> set (fst ?st). strand (fst x) = FWD"
    using protein_step [OF a Cons.prems] by blast
  obtain app1 where app1: "snd ?st = snd st @ app1" "\<forall>m \<in> set app1. strand m = FWD"
    using protein_step [OF a Cons.prems, of H s r len k w sc p] by blast
  obtain app2 where app2: "snd (fold (loop_body H s r len k w a sc) ps ?st) = snd ?st @ app2"
      "\<forall>m \<in> set app2. strand m = FWD"
    using Cons.IH [OF q] by blast
  have "snd (fold (loop_body H s r len k w a sc) (p # ps) st) = snd st @ (app1 @ app2)"
    using app1(1) app2(1) by simp
  moreover have "\<forall>m \<in> set (app1 @ app2). strand m = FWD"
    using app1(2) app2(2) by auto
  ultimately show ?case by blast
qed

lemma protein_seqRev_unused:
  "a \<noteq> 4 \<Longrightarrow> loop_body H s r len k w a sc = loop_body H s r' len k w a sc"
  by (intro ext) (simp add: loop_body_def hashBwd_at_def)

lemma last_keys: "Q \<noteq> [] \<Longrightarrow> last (keys Q) = (hash (fst (last Q)), snd (last Q))"
  by (simp add: keys_def last_map)

lemma candidate_formed:
  assumes "nonsymmetric H s r len k a i"
  shows "fst (loop_body H s r len k w a sc i st) \<noteq> [] \<and>
         snd (last (fst (loop_body H s r len k w a sc i st))) = i \<and>
         hash (fst (last (fst (loop_body H s r len k w a sc i st)))) = canonical_hash H s r len k a i"
proof -
  let ?Q = "fst (loop_body H s r len k w a sc i st)"
  have k: "keys ?Q = push_key w i (canonical_hash H s r len k a i) (keys (fst st))"
    using assms by (simp add: keys_loop_body)
  then have ne: "?Q \<noteq> []" by (auto simp: keys_def push_key_def)
  have "last (keys ?Q) = (canonical_hash H s r len k a i, i)"
    unfolding k by (simp add: push_key_def)
  with ne show ?thesis by (simp add: last_keys)
qed

text \<open>
  What holds in protein mode: the backward hash is the maximum hash value \<open>- 1\<close>, and the
  canonical hash is the forward hash. Every position whose forward hash is not that
  maximum is non-symmetric and forms a candidate (the entry pushed last on the deque has
  the position as origin and the forward hash), every record appended has the Forward
  strand, and the content of the reverse-complement buffer is never read: the result
  does not depend on it.
\<close>

lemma protein_mode_below_sentinel:
  assumes "alphabetSize \<noteq> 4"
  shows "hashBwd_at H seqRev len kmerSize alphabetSize i = - 1 \<and>
         canonical_hash H seq seqRev len kmerSize alphabetSize i = hashFwd_at H seq kmerSize i \<and>
         (hashFwd_at H seq kmerSize i \<noteq> - 1 \<longrightarrow>
            nonsymmetric H seq seqRev len kmerSize alphabetSize i \<and>
            fst (loop_body H seq seqRev len kmerSize windowSize alphabetSize seqCounter i st) \<noteq> [] \<and>
            snd (last (fst (loop_body H seq seqRev len kmerSize windowSize alphabetSize
                              seqCounter i st))) = i \<and>
            hash (fst (last (fst (loop_body H seq seqRev len kmerSize windowSize alphabetSize
                                    seqCounter i st)))) = hashFwd_at H seq kmerSize i) \<and>
         (\<exists>app. snd (addMinimizers H seqRev0 minimizerIndex seq0 len kmerSize windowSize
                      alphabetSize seqCounter) = minimizerIndex @ app \<and>
                list_all (\<lambda>m. strand m = FWD) app) \<and>
         addMinimizers H seqRev0 minimizerIndex seq0 len kmerSize windowSize alphabetSize
           seqCounter =
         addMinimizers H seqRev1 minimizerIndex seq0 len kmerSize windowSize alphabetSize
           seqCounter"
proof -
  have bwd: "hashBwd_at H seqRev len kmerSize alphabetSize i = - 1"
    using assms by (rule protein_hashBwd)
  have canon: "canonical_hash H seq seqRev len kmerSize alphabetSize i = hashFwd_at H seq kmerSize i"
    by (simp add: canonical_hash_def bwd)
  have cand: "nonsymmetric H seq seqRev len kmerSize alphabetSize i \<and>
      fst (loop_body H seq seqRev len kmerSize windowSize alphabetSize seqCounter i st) \<noteq> [] \<and>
      snd (last (fst (loop_body H seq seqRev len kmerSize windowSize alphabetSize
                        seqCounter i st))) = i \<and>
      hash (fst (last (fst (loop_body H seq seqRev len kmerSize windowSize alphabetSize
                              seqCounter i st)))) = hashFwd_at H seq kmerSize i"
    if "hashFwd_at H seq kmerSize i \<noteq> - 1"
  proof -
    have ns: "nonsymmetric H seq seqRev len kmerSize alphabetSize i"
      using that by (simp add: nonsymmetric_def bwd)
    show ?thesis
      using candidate_formed [OF ns, of windowSize seqCounter st] ns by (simp add: canon)
  qed
  have "\<exists>app. snd (addMinimizers H seqRev0 minimizerIndex seq0 len kmerSize windowSize
      alphabetSize seqCounter) = minimizerIndex @ app \<and> (\<forall>m \<in> set app. strand m = FWD)"
    unfolding addMinimizers_def Let_def snd_conv addMinimizers_scan_def
    using protein_fold [OF assms, of "([], minimizerIndex)"] by simp
  then have fwd: "\<exists>app. snd (addMinimizers H seqRev0 minimizerIndex seq0 len kmerSize windowSize
      alphabetSize seqCounter) = minimizerIndex @ app \<and> list_all (\<lambda>m. strand m = FWD) app"
    by (simp add: list_all_iff)
  have indep: "addMinimizers H seqRev0 minimizerIndex seq0 len kmerSize windowSize alphabetSize
      seqCounter =
      addMinimizers H seqRev1 minimizerIndex seq0 len kmerSize windowSize alphabetSize seqCounter"
    using assms
    by (simp add: addMinimizers_def Let_def addMinimizers_scan_def
        protein_seqRev_unused [OF assms, of H _ seqRev0 len kmerSize windowSize seqCounter seqRev1])
  show ?thesis
    using bwd canon cand fwd indep by blast
qed

lemma sentinel_forward_hash_skipped:
  assumes "alphabetSize \<noteq> 4" and "hashFwd_at H seq kmerSize i = - 1"
  shows "loop_body H seq seqRev len kmerSize windowSize alphabetSize seqCounter i st = st"
  using assms by (simp add: loop_body_def hashBwd_at_def)

lemma murmur_test_vector:
  "MurmurHash3_x64_128 ''The quick brown fox jumps over the lazy dog'' 0 =
     (0xe34bbc7bbc071b6c, 0x7a433ca9c49a9347)"
  by code_simp

text \<open>
  Claim C5 does not hold of the code. With an alphabet size other than 4 the backward
  hash is the maximum hash value, chosen ``so that it is ignored later'' (the comment of
  the code); but the forward hash can be that value as well, and then the backward hash
  equals it and the test \<^verbatim>\<open>hashBwd != hashFwd\<close> skips the position. At a hash width of 32
  bits the 7-mer \<open>YIMDDFT\<close> hashes to the maximum: for this sequence, with \<open>k = 7\<close> and
  \<open>w = 1\<close>, no candidate is formed at position 0 and nothing is appended for window 0,
  where the claim has a candidate and a record with the Forward strand.
\<close>

theorem protein_sentinel_failing_input:
  "hashFwd_at (murmurHash :: char list \<Rightarrow> 32 word) ''YIMDDFT'' 7 0 = - 1 \<and>
   hashBwd_at (murmurHash :: char list \<Rightarrow> 32 word) ''.......'' 7 7 20 0 =
     hashFwd_at (murmurHash :: char list \<Rightarrow> 32 word) ''YIMDDFT'' 7 0 \<and>
   loop_body (murmurHash :: char list \<Rightarrow> 32 word) ''YIMDDFT'' ''.......'' 7 7 1 20 0 0 ([], []) =
     ([], []) \<and>
   addMinimizers (murmurHash :: char list \<Rightarrow> 32 word) ''.......'' [] ''YIMDDFT'' 7 7 1 20 0 =
     (''YIMDDFT'', [])"
  by code_simp

section \<open>getReferenceSize\<close>

lemma getReferenceSize_loop_eq:
  "getReferenceSize_loop fs refSequences count =
     count + word_of_int (sum_list (map (tellg_at_end fs) refSequences))"
  by (induction refSequences arbitrary: count) (simp_all add: algebra_simps)

text \<open>
  Claim C10. \<open>getReferenceSize\<close> returns the sum modulo \<open>2 ^ 64\<close> of the offsets reported
  for the files, each cast to 64 bits unsigned; a path that cannot be opened reports
  \<open>-1\<close> and so contributes \<open>2 ^ 64 - 1\<close>, not 0.
\<close>

theorem getReferenceSize_sum:
  "unat (getReferenceSize fs refSequences) =
     (\<Sum>f\<leftarrow>refSequences. unat (word_of_int (tellg_at_end fs f) :: 64 word)) mod 2 ^ 64 \<and>
   (\<forall>f. fs f = None \<longrightarrow> unat (word_of_int (tellg_at_end fs f) :: 64 word) = 2 ^ 64 - 1)"
proof
  have "getReferenceSize fs refSequences =
      word_of_nat (\<Sum>f\<leftarrow>refSequences. unat (word_of_int (tellg_at_end fs f) :: 64 word))"
    unfolding getReferenceSize_def getReferenceSize_loop_eq
    by (induction refSequences) simp_all
  then show "unat (getReferenceSize fs refSequences) =
     (\<Sum>f\<leftarrow>refSequences. unat (word_of_int (tellg_at_end fs f) :: 64 word)) mod 2 ^ 64"
    by (simp add: unat_of_nat)
  show "\<forall>f. fs f = None \<longrightarrow> unat (word_of_int (tellg_at_end fs f) :: 64 word) = 2 ^ 64 - 1"
    by (simp add: tellg_at_end_def unsigned_minus_1_eq_mask mask_eq_exp_minus_1)
qed

theorem getReferenceSize_sum_witness:
  "(Map.empty(''ref.fa'' \<mapsto> 10)) ''missing.fa'' = None \<and>
   unat (word_of_int (tellg_at_end (Map.empty(''ref.fa'' \<mapsto> 10)) ''missing.fa'') :: 64 word) =
     2 ^ 64 - 1 \<and>
   getReferenceSize (Map.empty(''ref.fa'' \<mapsto> 10)) [''ref.fa'', ''missing.fa''] = 9"
  using getReferenceSize_sum [of "Map.empty(''ref.fa'' \<mapsto> 10)" "[''ref.fa'', ''missing.fa'']"]
  by (simp add: getReferenceSize_def tellg_at_end_def unsigned_minus_1_eq_mask mask_eq_exp_minus_1)

end
